theory Spec2Isabelle
  imports Main "HOL-Library.Word"
begin

unbundle bit_operations_syntax

section \<open>The buffer cache of pj3/bio.c\<close>

subsection \<open>Data\<close>

text \<open>
  A \<^verbatim>\<open>struct buf\<close> is addressed by its slot in the array \<^verbatim>\<open>bcache.buf[NBUF]\<close>; a
  \<^verbatim>\<open>struct buf *\<close> is that slot number. The header buf.h is not among the sources, so
  the record has exactly the fields bio.c reads and writes: \<^verbatim>\<open>flags\<close>, \<^verbatim>\<open>dev\<close>,
  \<^verbatim>\<open>blockno\<close>, \<^verbatim>\<open>refcnt\<close> and the sleep lock \<^verbatim>\<open>lock\<close>, which is kept as the process
  holding it. \<^verbatim>\<open>refcnt\<close> is an unbounded integer: the count is at most the number of
  processes, so no wrap-around is in reach, and keeping it signed makes "never negative"
  a property to prove rather than a property of the type.
\<close>

type_synonym uint = "32 word"
type_synonym pid = nat

datatype error = Panic string

record buf =
  flags :: "32 word"
  dev :: uint
  blockno :: uint
  lock :: "pid option"
  refcnt :: int

text \<open>
  Modelled from the spec: buf.h, which defines the two flag bits, is missing. The spec
  names them Valid and Dirty; they are two distinct bits of \<^verbatim>\<open>flags\<close>, with the values
  xv6 gives them.
\<close>

definition B_VALID :: "32 word" where
  "B_VALID = 2"

definition B_DIRTY :: "32 word" where
  "B_DIRTY = 4"

text \<open>
  \<^verbatim>\<open>bcache\<close>: the spin lock, the array, the \<^verbatim>\<open>isfull\<close> flag and the circular list
  through \<^verbatim>\<open>bcache.head\<close>. The list is kept as the sequence of buffers met from
  \<^verbatim>\<open>head.next\<close> following \<^verbatim>\<open>next\<close> until \<^verbatim>\<open>&bcache.head\<close> is reached again (most
  recently used first); following \<^verbatim>\<open>prev\<close> from \<^verbatim>\<open>head.prev\<close> meets the same buffers
  in reverse. A buffer has one \<^verbatim>\<open>next\<close> pointer, so the sequence has no repeats. The
  pointers themselves, and what binit and brelse do to them, come further down.
\<close>

record bcache =
  pool_lock :: bool
  buf :: "nat \<Rightarrow> buf"
  isfull :: int
  head :: "nat list"

text \<open>The calls bio.c makes to code outside the cache, in the order it makes them.\<close>

datatype call = Sync | Iderw nat | Log_write nat

text \<open>
  What a call that may sleep does: it panics, or it returns a buffer, or the caller is
  put to sleep on a buffer's sleep lock (and the state is the one it left behind).
\<close>

datatype outcome = Fatal error | Asleep nat bcache | Returns nat bcache

subsection \<open>Locks\<close>

text \<open>
  Modelled from the spec: spinlock.c is missing. The pool lock is a mutual-exclusion
  lock; taking it while it is held, or dropping it while it is free, is fatal (xv6
  panics with these two messages).
\<close>

definition acquire :: "bcache \<Rightarrow> error + bcache" where
  "acquire s = (if pool_lock s then Inl (Panic ''acquire'') else Inr (s\<lparr>pool_lock := True\<rparr>))"

definition release :: "bcache \<Rightarrow> error + bcache" where
  "release s = (if pool_lock s then Inr (s\<lparr>pool_lock := False\<rparr>) else Inl (Panic ''release''))"

text \<open>
  Modelled from the spec: sleeplock.c is missing. The content lock of a buffer is held by
  one process at a time; a process that asks for a held lock sleeps until it is free.
\<close>

definition holdingsleep :: "pid \<Rightarrow> nat \<Rightarrow> bcache \<Rightarrow> bool" where
  "holdingsleep p b s = (lock (buf s b) = Some p)"

definition acquiresleep :: "pid \<Rightarrow> nat \<Rightarrow> bcache \<Rightarrow> outcome" where
  "acquiresleep p b s =
     (if lock (buf s b) = None
      then Returns b (s\<lparr>buf := (buf s)(b := (buf s b)\<lparr>lock := Some p\<rparr>)\<rparr>)
      else Asleep b s)"

definition releasesleep :: "nat \<Rightarrow> bcache \<Rightarrow> bcache" where
  "releasesleep b s = s\<lparr>buf := (buf s)(b := (buf s b)\<lparr>lock := None\<rparr>)\<rparr>"

subsection \<open>binit\<close>

text \<open>
  \<^verbatim>\<open>bcache\<close> has static storage, so every field is zero before \<^verbatim>\<open>binit\<close> runs;
  \<^verbatim>\<open>binit\<close> empties the list and then links \<^verbatim>\<open>buf[0]\<close>, \<^verbatim>\<open>buf[1]\<close>, ... in turn right
  behind the head. \<^verbatim>\<open>NBUF\<close> comes from param.h, which is missing: it is a parameter.
\<close>

definition buf0 :: buf where
  "buf0 = \<lparr>flags = 0, dev = 0, blockno = 0, lock = None, refcnt = 0\<rparr>"

definition bcache0 :: bcache where
  "bcache0 = \<lparr>pool_lock = False, buf = (\<lambda>_. buf0), isfull = 0, head = []\<rparr>"

fun binit_loop :: "nat list \<Rightarrow> bcache \<Rightarrow> bcache" where
  "binit_loop [] s = s"
| "binit_loop (b # bs) s = binit_loop bs (s\<lparr>head := b # head s\<rparr>)"

definition binit :: "nat \<Rightarrow> bcache \<Rightarrow> bcache" where
  "binit NBUF s = binit_loop [0..<NBUF] (s\<lparr>pool_lock := False, head := []\<rparr>)"

subsection \<open>buffer_isfull and logDirtyBuffer\<close>

definition is_dirty :: "buf \<Rightarrow> bool" where
  "is_dirty b = (flags b AND B_DIRTY \<noteq> 0)"

text \<open>The loop of \<^verbatim>\<open>buffer_isfull\<close> over the list, with its counter.\<close>

fun isfull_loop :: "bcache \<Rightarrow> nat list \<Rightarrow> int \<Rightarrow> int" where
  "isfull_loop s [] cnt = cnt"
| "isfull_loop s (b # bs) cnt =
     (if flags (buf s b) AND B_DIRTY \<noteq> 0 then isfull_loop s bs (cnt + 1)
      else isfull_loop s bs cnt)"

definition buffer_isfull :: "nat \<Rightarrow> bcache \<Rightarrow> error + (int \<times> bcache)" where
  "buffer_isfull NBUF s =
     (case acquire s of Inl e \<Rightarrow> Inl e
      | Inr s1 \<Rightarrow>
          let cnt = isfull_loop s1 (head s1) 0 in
          (case release s1 of Inl e \<Rightarrow> Inl e
           | Inr s2 \<Rightarrow> if cnt \<ge> int NBUF - 3 then Inr (1, s2) else Inr (0, s2)))"

text \<open>
  The loop of \<^verbatim>\<open>logDirtyBuffer\<close>: the counter, and the \<^verbatim>\<open>log_write\<close> calls made so
  far. log.c is missing; the cache hands the buffer over and goes on, so the call is
  recorded and the cache state is what bio.c itself leaves.
\<close>

fun logDirty_loop :: "bcache \<Rightarrow> nat list \<Rightarrow> int \<times> call list \<Rightarrow> int \<times> call list" where
  "logDirty_loop s [] acc = acc"
| "logDirty_loop s (b # bs) (cnt, cs) =
     (if flags (buf s b) AND B_DIRTY \<noteq> 0 then logDirty_loop s bs (cnt + 1, cs @ [Log_write b])
      else logDirty_loop s bs (cnt, cs))"

definition logDirtyBuffer :: "bcache \<Rightarrow> call list \<times> (error + (int \<times> bcache))" where
  "logDirtyBuffer s =
     (case acquire s of Inl e \<Rightarrow> ([], Inl e)
      | Inr s1 \<Rightarrow>
          let (cnt, cs) = logDirty_loop s1 (head s1) (0, []) in
          (case release s1 of Inl e \<Rightarrow> (cs, Inl e)
           | Inr s2 \<Rightarrow> (cs, Inr (cnt, s2))))"

subsection \<open>bget and bread\<close>

text \<open>
  \<^verbatim>\<open>acquire; bcache.isfull = v; release\<close>, the way bget sets and clears its flag.
\<close>

definition set_isfull :: "int \<Rightarrow> bcache \<Rightarrow> error + bcache" where
  "set_isfull v s = (case acquire s of Inl e \<Rightarrow> Inl e | Inr s1 \<Rightarrow> release (s1\<lparr>isfull := v\<rparr>))"

text \<open>
  Lines 66 to 77 of bget. \<^verbatim>\<open>sync\<close> lives outside bio.c: it is a parameter that maps
  the cache it finds to the cache it leaves, or panics. \<^verbatim>\<open>&&\<close> evaluates
  \<^verbatim>\<open>buffer_isfull()\<close> only when \<^verbatim>\<open>bcache.isfull\<close> is 0.
\<close>

definition bget_flush :: "nat \<Rightarrow> (bcache \<Rightarrow> error + bcache) \<Rightarrow> bcache \<Rightarrow> call list \<times> (error + bcache)" where
  "bget_flush NBUF sync s =
     (if isfull s = 0 then
        (case buffer_isfull NBUF s of Inl e \<Rightarrow> ([], Inl e)
         | Inr (r, s1) \<Rightarrow>
             if r \<noteq> 0 then
               (case set_isfull 1 s1 of Inl e \<Rightarrow> ([], Inl e)
                | Inr s2 \<Rightarrow>
                    (case sync s2 of Inl e \<Rightarrow> ([Sync], Inl e)
                     | Inr s3 \<Rightarrow> ([Sync], set_isfull 0 s3)))
             else ([], Inr s1))
      else ([], Inr s))"

text \<open>The two conditions of the two scans.\<close>

definition cached :: "bcache \<Rightarrow> uint \<Rightarrow> uint \<Rightarrow> nat \<Rightarrow> bool" where
  "cached s d n b = (dev (buf s b) = d \<and> blockno (buf s b) = n)"

definition recyclable :: "bcache \<Rightarrow> nat \<Rightarrow> bool" where
  "recyclable s b = (refcnt (buf s b) = 0 \<and> flags (buf s b) AND B_DIRTY = 0)"

text \<open>
  Lines 79 to 105 of bget: the scan from \<^verbatim>\<open>head.next\<close> along \<^verbatim>\<open>next\<close> for the block,
  then the scan from \<^verbatim>\<open>head.prev\<close> along \<^verbatim>\<open>prev\<close> for a buffer to recycle. Each loop
  leaves at its first match, which is what \<^const>\<open>find\<close> returns.
\<close>

definition bget_scan :: "pid \<Rightarrow> uint \<Rightarrow> uint \<Rightarrow> bcache \<Rightarrow> outcome" where
  "bget_scan p d n s =
     (case acquire s of Inl e \<Rightarrow> Fatal e
      | Inr s1 \<Rightarrow>
          (case find (cached s1 d n) (head s1) of
             Some b \<Rightarrow>
               (case release (s1\<lparr>buf := (buf s1)(b := (buf s1 b)\<lparr>refcnt := refcnt (buf s1 b) + 1\<rparr>)\<rparr>) of
                  Inl e \<Rightarrow> Fatal e
                | Inr s2 \<Rightarrow> acquiresleep p b s2)
           | None \<Rightarrow>
               (case find (recyclable s1) (rev (head s1)) of
                  Some b \<Rightarrow>
                    (case release (s1\<lparr>buf := (buf s1)(b := (buf s1 b)\<lparr>dev := d, blockno := n, flags := 0, refcnt := 1\<rparr>)\<rparr>) of
                       Inl e \<Rightarrow> Fatal e
                     | Inr s2 \<Rightarrow> acquiresleep p b s2)
                | None \<Rightarrow> Fatal (Panic ''bget: no buffers''))))"

definition bget :: "nat \<Rightarrow> (bcache \<Rightarrow> error + bcache) \<Rightarrow> pid \<Rightarrow> uint \<Rightarrow> uint \<Rightarrow> bcache \<Rightarrow> call list \<times> outcome" where
  "bget NBUF sync p d n s =
     (case bget_flush NBUF sync s of
        (cs, Inl e) \<Rightarrow> (cs, Fatal e)
      | (cs, Inr s1) \<Rightarrow> (cs, bget_scan p d n s1))"

text \<open>
  \<^verbatim>\<open>iderw\<close> is the disk driver, outside bio.c: a parameter that gives the flags the
  buffer has when the transfer is over. Of the fields kept here it writes no other.
\<close>

definition bread_load :: "(buf \<Rightarrow> 32 word) \<Rightarrow> nat \<Rightarrow> bcache \<Rightarrow> call list \<times> bcache" where
  "bread_load iderw b s =
     (if flags (buf s b) AND B_VALID = 0
      then ([Iderw b], s\<lparr>buf := (buf s)(b := (buf s b)\<lparr>flags := iderw (buf s b)\<rparr>)\<rparr>)
      else ([], s))"

definition bread :: "nat \<Rightarrow> (bcache \<Rightarrow> error + bcache) \<Rightarrow> (buf \<Rightarrow> 32 word) \<Rightarrow> pid \<Rightarrow> uint \<Rightarrow> uint \<Rightarrow> bcache
    \<Rightarrow> call list \<times> outcome" where
  "bread NBUF sync iderw p d n s =
     (case bget NBUF sync p d n s of
        (cs, Returns b s1) \<Rightarrow> (case bread_load iderw b s1 of (cs', s2) \<Rightarrow> (cs @ cs', Returns b s2))
      | (cs, Asleep b s1) \<Rightarrow> (cs, Asleep b s1)
      | (cs, Fatal e) \<Rightarrow> (cs, Fatal e))"

text \<open>
  A process asleep in \<^verbatim>\<open>acquiresleep\<close> goes on when it is woken: it takes the lock if it
  is free (and sleeps again if not), bget returns, and bread finishes.
\<close>

definition bread_wakeup :: "(buf \<Rightarrow> 32 word) \<Rightarrow> pid \<Rightarrow> nat \<Rightarrow> bcache \<Rightarrow> call list \<times> outcome" where
  "bread_wakeup iderw p b s =
     (case acquiresleep p b s of
        Returns b' s1 \<Rightarrow> (case bread_load iderw b' s1 of (cs, s2) \<Rightarrow> (cs, Returns b' s2))
      | other \<Rightarrow> ([], other))"

subsection \<open>bwrite and brelse\<close>

definition bwrite :: "(buf \<Rightarrow> 32 word) \<Rightarrow> pid \<Rightarrow> nat \<Rightarrow> bcache \<Rightarrow> call list \<times> (error + bcache)" where
  "bwrite iderw p b s =
     (if \<not> holdingsleep p b s then ([], Inl (Panic ''bwrite''))
      else
        let s1 = s\<lparr>buf := (buf s)(b := (buf s b)\<lparr>flags := flags (buf s b) OR B_DIRTY\<rparr>)\<rparr> in
        ([Iderw b], Inr (s1\<lparr>buf := (buf s1)(b := (buf s1 b)\<lparr>flags := iderw (buf s1 b)\<rparr>)\<rparr>)))"

text \<open>
  Lines 145 to 150 of brelse take the buffer out of the list and link it in again right
  behind the head.
\<close>

definition brelse :: "pid \<Rightarrow> nat \<Rightarrow> bcache \<Rightarrow> error + bcache" where
  "brelse p b s =
     (if \<not> holdingsleep p b s then Inl (Panic ''brelse'')
      else
        (case acquire (releasesleep b s) of Inl e \<Rightarrow> Inl e
         | Inr s1 \<Rightarrow>
             let s2 = s1\<lparr>buf := (buf s1)(b := (buf s1 b)\<lparr>refcnt := refcnt (buf s1 b) - 1\<rparr>)\<rparr> in
             if refcnt (buf s2 b) = 0
             then release (s2\<lparr>head := b # remove1 b (head s2)\<rparr>)
             else release s2))"

subsection \<open>The list as next and prev pointers\<close>

text \<open>
  In bio.c the list is a ring of \<^verbatim>\<open>next\<close> and \<^verbatim>\<open>prev\<close> pointers through the buffers and
  \<^verbatim>\<open>bcache.head\<close>. Here the pointers are two maps on node numbers (\<open>nxt\<close> and \<open>prv\<close>, since
  \<open>next\<close> is a keyword), and node \<open>h\<close> stands for \<^verbatim>\<open>&bcache.head\<close>. A ring along a map
  \<open>f\<close> from \<open>h\<close> through the sequence \<open>xs\<close> leads back to \<open>h\<close>; the list is well formed
  for \<open>xs\<close> when \<open>nxt\<close> runs through \<open>xs\<close> and \<open>prv\<close> through its reverse.
\<close>

record links =
  nxt :: "nat \<Rightarrow> nat"
  prv :: "nat \<Rightarrow> nat"

fun path :: "(nat \<Rightarrow> nat) \<Rightarrow> nat \<Rightarrow> nat list \<Rightarrow> bool" where
  "path f a [] = True"
| "path f a (x # xs) = (f a = x \<and> path f x xs)"

definition ring :: "(nat \<Rightarrow> nat) \<Rightarrow> nat \<Rightarrow> nat list \<Rightarrow> bool" where
  "ring f h xs = path f h (xs @ [h])"

definition dll :: "nat \<Rightarrow> links \<Rightarrow> nat list \<Rightarrow> bool" where
  "dll h l xs = (h \<notin> set xs \<and> distinct xs \<and> ring (nxt l) h xs \<and> ring (prv l) h (rev xs))"

text \<open>
  Lines 50 to 54 of binit, which are lines 147 to 150 of brelse: \<^verbatim>\<open>b->next = head.next;
  b->prev = &head; head.next->prev = b; head.next = b\<close>.
\<close>

definition link_front :: "nat \<Rightarrow> nat \<Rightarrow> links \<Rightarrow> links" where
  "link_front h b l =
     (let l1 = l\<lparr>nxt := (nxt l)(b := nxt l h)\<rparr>;
          l2 = l1\<lparr>prv := (prv l1)(b := h)\<rparr>;
          l3 = l2\<lparr>prv := (prv l2)(nxt l2 h := b)\<rparr>
      in l3\<lparr>nxt := (nxt l3)(h := b)\<rparr>)"

text \<open>
  Lines 145 and 146 of brelse: \<^verbatim>\<open>b->next->prev = b->prev; b->prev->next = b->next\<close>.
\<close>

definition unlink :: "nat \<Rightarrow> links \<Rightarrow> links" where
  "unlink b l =
     (let l1 = l\<lparr>prv := (prv l)(nxt l b := prv l b)\<rparr>
      in l1\<lparr>nxt := (nxt l1)(prv l1 b := nxt l1 b)\<rparr>)"

definition move_front :: "nat \<Rightarrow> nat \<Rightarrow> links \<Rightarrow> links" where
  "move_front h b l = link_front h b (unlink b l)"

text \<open>
  binit on the pointers, with the node after the array for the head: lines 47 and 48, then
  the loop.
\<close>

fun binit_links_loop :: "nat \<Rightarrow> nat list \<Rightarrow> links \<Rightarrow> links" where
  "binit_links_loop h [] l = l"
| "binit_links_loop h (b # bs) l = binit_links_loop h bs (link_front h b l)"

definition binit_links :: "nat \<Rightarrow> links \<Rightarrow> links" where
  "binit_links NBUF l =
     binit_links_loop NBUF [0..<NBUF] (l\<lparr>prv := (prv l)(NBUF := NBUF), nxt := (nxt l)(NBUF := NBUF)\<rparr>)"

text \<open>
  The buffers a loop \<^verbatim>\<open>for(b = start; b != &bcache.head; b = f(b))\<close> visits in at most
  \<open>k\<close> steps; \<open>None\<close> when it has not come back to the head by then.
\<close>

fun walk :: "(nat \<Rightarrow> nat) \<Rightarrow> nat \<Rightarrow> nat \<Rightarrow> nat \<Rightarrow> nat list option" where
  "walk f h 0 b = (if b = h then Some [] else None)"
| "walk f h (Suc k) b = (if b = h then Some [] else map_option ((#) b) (walk f h k (f b)))"

subsection \<open>Quantities the statements use\<close>

text \<open>How many buffers on the list have \<^verbatim>\<open>B_DIRTY\<close> set.\<close>

definition dirty_count :: "bcache \<Rightarrow> nat" where
  "dirty_count s = length (filter (\<lambda>b. is_dirty (buf s b)) (head s))"

text \<open>
  Identity uniqueness on the list, up to a set \<open>Z\<close> of exempt identities: two list
  entries with the same \<^verbatim>\<open>(dev, blockno)\<close> outside \<open>Z\<close> are the same buffer.
\<close>

definition unique_ids :: "(uint \<times> uint) set \<Rightarrow> bcache \<Rightarrow> bool" where
  "unique_ids Z s =
     (\<forall>b1 \<in> set (head s). \<forall>b2 \<in> set (head s).
        dev (buf s b1) = dev (buf s b2) \<and> blockno (buf s b1) = blockno (buf s b2) \<and>
        (dev (buf s b1), blockno (buf s b1)) \<notin> Z \<longrightarrow> b1 = b2)"

text \<open>Every buffer whose content lock is held is on the list.\<close>

definition locked_on_list :: "bcache \<Rightarrow> bool" where
  "locked_on_list s = (\<forall>b. lock (buf s b) \<noteq> None \<longrightarrow> b \<in> set (head s))"

text \<open>
  A slot is pristine while it is as the zero-initialised \<^verbatim>\<open>bcache\<close> has it, which is how
  \<^verbatim>\<open>binit\<close> leaves every slot: identity (0, 0), no flag, reference count 0, content lock
  free. A buffer that bget has handed out and that somebody still references, holds, or
  that has a flag or another identity, is not pristine.
\<close>

definition pristine :: "bcache \<Rightarrow> nat \<Rightarrow> bool" where
  "pristine s b = (buf s b = buf0)"

text \<open>
  Identity uniqueness among the buffers in use: two list entries with the same
  \<^verbatim>\<open>(dev, blockno)\<close>, neither of them pristine, are the same buffer.
\<close>

definition unique_in_use :: "bcache \<Rightarrow> bool" where
  "unique_in_use s =
     (\<forall>b1 \<in> set (head s). \<forall>b2 \<in> set (head s).
        dev (buf s b1) = dev (buf s b2) \<and> blockno (buf s b1) = blockno (buf s b2) \<and>
        \<not> pristine s b1 \<and> \<not> pristine s b2 \<longrightarrow> b1 = b2)"

text \<open>
  A buffer in use for block 0 of device 0 is the one the first loop of bget finds for that
  block: no pristine slot is ahead of it on the list.
\<close>

definition zero_first :: "bcache \<Rightarrow> bool" where
  "zero_first s =
     (\<forall>u \<in> set (head s). cached s 0 0 u \<and> \<not> pristine s u \<longrightarrow> find (cached s 0 0) (head s) = Some u)"

subsection \<open>Processes calling the cache\<close>

text \<open>
  The cache together with the processes that are asleep inside bread, each with the
  buffer whose lock it waits for. A schedule is a list of calls, each by a process:
  a fetch, the wake-up of a sleeper, a write, a release. A sleeping process makes no
  call, and a wake-up of a process that is not asleep on that buffer does nothing. The
  run stops at the first panic.
\<close>

record sys =
  cache :: bcache
  asleep :: "(pid \<times> nat) list"

datatype op = Fetch pid uint uint | Wakeup pid nat | Write pid nat | Release pid nat

definition sleeping :: "sys \<Rightarrow> pid \<Rightarrow> bool" where
  "sleeping t p = (p \<in> fst ` set (asleep t))"

fun exec_op :: "nat \<Rightarrow> (bcache \<Rightarrow> error + bcache) \<Rightarrow> (buf \<Rightarrow> 32 word) \<Rightarrow> op \<Rightarrow> sys \<Rightarrow> error + sys" where
  "exec_op NBUF sync iderw (Fetch p d n) t =
     (if sleeping t p then Inr t
      else case snd (bread NBUF sync iderw p d n (cache t)) of
             Fatal e \<Rightarrow> Inl e
           | Asleep b s \<Rightarrow> Inr (t\<lparr>cache := s, asleep := (p, b) # asleep t\<rparr>)
           | Returns b s \<Rightarrow> Inr (t\<lparr>cache := s\<rparr>))"
| "exec_op NBUF sync iderw (Wakeup p b) t =
     (if (p, b) \<in> set (asleep t) then
        (case snd (bread_wakeup iderw p b (cache t)) of
           Fatal e \<Rightarrow> Inl e
         | Asleep b' s \<Rightarrow> Inr t
         | Returns b' s \<Rightarrow> Inr (t\<lparr>cache := s, asleep := remove1 (p, b) (asleep t)\<rparr>))
      else Inr t)"
| "exec_op NBUF sync iderw (Write p b) t =
     (if sleeping t p then Inr t
      else case snd (bwrite iderw p b (cache t)) of
             Inl e \<Rightarrow> Inl e
           | Inr s \<Rightarrow> Inr (t\<lparr>cache := s\<rparr>))"
| "exec_op NBUF sync iderw (Release p b) t =
     (if sleeping t p then Inr t
      else case brelse p b (cache t) of
             Inl e \<Rightarrow> Inl e
           | Inr s \<Rightarrow> Inr (t\<lparr>cache := s\<rparr>))"

fun run :: "nat \<Rightarrow> (bcache \<Rightarrow> error + bcache) \<Rightarrow> (buf \<Rightarrow> 32 word) \<Rightarrow> op list \<Rightarrow> sys \<Rightarrow> error + sys" where
  "run NBUF sync iderw [] t = Inr t"
| "run NBUF sync iderw (x # xs) t =
     (case exec_op NBUF sync iderw x t of Inl e \<Rightarrow> Inl e | Inr t' \<Rightarrow> run NBUF sync iderw xs t')"

definition boot :: "nat \<Rightarrow> sys" where
  "boot NBUF = \<lparr>cache = binit NBUF bcache0, asleep = []\<rparr>"

text \<open>
  The processes asleep on a buffer, and the invariant that ties them and the lock holder
  to the reference count.
\<close>

definition waiters :: "sys \<Rightarrow> nat \<Rightarrow> nat" where
  "waiters t b = length (filter (\<lambda>x. snd x = b) (asleep t))"

definition covered :: "(nat \<Rightarrow> nat) \<Rightarrow> bcache \<Rightarrow> bool" where
  "covered w s =
     (\<forall>b. int (w b) + (if lock (buf s b) = None then 0 else 1) \<le> refcnt (buf s b))"

definition refs_cover :: "sys \<Rightarrow> bool" where
  "refs_cover t = covered (waiters t) (cache t)"

text \<open>Every sleeper waits for a buffer of the list.\<close>

definition sleepers_on_list :: "sys \<Rightarrow> bool" where
  "sleepers_on_list t = (\<forall>x \<in> set (asleep t). snd x \<in> set (head (cache t)))"

text \<open>
  What a flush has to respect for the reference counts to stay right: it leaves every
  reference count and every content lock as it found them (it releases what it fetches).
\<close>

definition flush_balanced :: "(bcache \<Rightarrow> error + bcache) \<Rightarrow> bool" where
  "flush_balanced sync =
     (\<forall>t t'. sync t = Inr t' \<longrightarrow>
        (\<forall>b. refcnt (buf t' b) = refcnt (buf t b) \<and> lock (buf t' b) = lock (buf t b)))"

text \<open>
  What a flush has to respect for identities to stay unique: it keeps the same buffers on
  the list, and it keeps uniqueness together with the fact that locked buffers are on the
  list (as it does when it goes through bread, bwrite and brelse).
\<close>

definition flush_keeps_ids :: "(uint \<times> uint) set \<Rightarrow> (bcache \<Rightarrow> error + bcache) \<Rightarrow> bool" where
  "flush_keeps_ids Z sync =
     (\<forall>t t'. sync t = Inr t' \<longrightarrow>
        set (head t') = set (head t) \<and>
        (unique_ids Z t \<and> locked_on_list t \<longrightarrow> unique_ids Z t' \<and> locked_on_list t'))"

text \<open>
  What a flush has to respect for the buffer in use for block 0 of device 0 to stay the
  one bget finds: it keeps \<^const>\<open>zero_first\<close> in a cache with unique identities whose
  locked buffers are on the list (as it does when it goes through bread, bwrite and
  brelse).
\<close>

definition flush_keeps_zero :: "(bcache \<Rightarrow> error + bcache) \<Rightarrow> bool" where
  "flush_keeps_zero sync =
     (\<forall>t t'. sync t = Inr t' \<longrightarrow>
        (unique_ids {(0, 0)} t \<and> locked_on_list t \<and> zero_first t \<longrightarrow> zero_first t'))"

subsection \<open>Collaborators and states for the examples\<close>

text \<open>
  A disk driver as xv6's leaves the flags when the transfer is over (Valid set, Dirty
  cleared), and one that only sets Valid.
\<close>

definition ide_done :: "buf \<Rightarrow> 32 word" where
  "ide_done b = (flags b OR B_VALID) AND NOT B_DIRTY"

definition ide_keep :: "buf \<Rightarrow> 32 word" where
  "ide_keep b = flags b OR B_VALID"

text \<open>
  A flush that commits at once, as the spec expects of the flush in the end: every buffer
  loses its Dirty flag.
\<close>

definition flush_commit :: "bcache \<Rightarrow> error + bcache" where
  "flush_commit t = Inr (t\<lparr>buf := (\<lambda>b. (buf t b)\<lparr>flags := flags (buf t b) AND NOT B_DIRTY\<rparr>)\<rparr>)"

text \<open>
  A flush that goes through the cache itself: it fetches a block and releases it. Its
  own fetch is given a flush that panics, so a nested flush would show.
\<close>

definition flush_fetching :: "nat \<Rightarrow> pid \<Rightarrow> uint \<Rightarrow> uint \<Rightarrow> bcache \<Rightarrow> error + bcache" where
  "flush_fetching NBUF p d n t =
     (case snd (bread NBUF (\<lambda>_. Inl (Panic ''nested sync'')) ide_done p d n t) of
        Fatal e \<Rightarrow> Inl e
      | Asleep b t1 \<Rightarrow> Inl (Panic ''asleep'')
      | Returns b t1 \<Rightarrow> brelse p b t1)"

text \<open>
  A pool of 30 buffers in which buffers 0 to 26 hold blocks 0 to 26 of device 1, loaded
  and dirty, and nobody holds a buffer.
\<close>

definition pool_pressed :: bcache where
  "pool_pressed =
     (binit 30 bcache0)\<lparr>buf := (\<lambda>b. if b < 27
        then \<lparr>flags = B_VALID OR B_DIRTY, dev = 1, blockno = of_nat b, lock = None, refcnt = 0\<rparr>
        else buf0)\<rparr>"

text \<open>
  A pool of 4 buffers, all held by process 1: blocks 10 to 13 of device 1.
\<close>

definition pool_held :: bcache where
  "pool_held =
     (binit 4 bcache0)\<lparr>buf := (\<lambda>b.
        \<lparr>flags = B_VALID, dev = 1, blockno = 10 + of_nat b, lock = Some 1, refcnt = 1\<rparr>)\<rparr>"


text \<open>
  \<^const>\<open>pool_pressed\<close> with the flush flag set, after a flush that fetched block 40 of
  device 1 into buffer 27 and released it.
\<close>

definition pool_flushed :: bcache where
  "pool_flushed =
     pool_pressed\<lparr>isfull := 1, head := 27 # remove1 27 (rev [0..<30]),
       buf := (buf pool_pressed)(27 := \<lparr>flags = 2, dev = 1, blockno = 40, lock = None, refcnt = 0\<rparr>)\<rparr>"




section \<open>The run queues of pj1\<close>

text \<open>
  proc.h declares the scheduling fields of \<^verbatim>\<open>struct proc\<close> and the three queue heads
  \<^verbatim>\<open>level_queue[3]\<close>. A process is addressed by its slot in the process table, and a
  queue is kept as the processes met from its head along \<^verbatim>\<open>next\<close>.
\<close>

datatype procstate = UNUSED | EMBRYO | SLEEPING | RUNNABLE | RUNNING | ZOMBIE

record proc =
  state :: procstate
  level :: int
  priority :: int
  time_quantum :: int
  time_allotment :: int
  lock_scheduler :: int
  already_enqueued :: int

record sched =
  ptable :: "nat \<Rightarrow> proc"
  level_queue :: "nat \<Rightarrow> nat list"

text \<open>
  Modelled from the spec: proc.c, which holds the enqueue and dispatch code, is missing.
  Levels 0 and 1 are round-robin queues; level 2 is ordered by \<^verbatim>\<open>priority\<close>, the lower
  value first, and round-robin among equal priorities: a process goes in front of the
  first queued process with a higher value.
\<close>

fun insert_by_priority :: "(nat \<Rightarrow> int) \<Rightarrow> nat \<Rightarrow> nat list \<Rightarrow> nat list" where
  "insert_by_priority pr p [] = [p]"
| "insert_by_priority pr p (q # qs) =
     (if pr p < pr q then p # q # qs else q # insert_by_priority pr p qs)"

text \<open>
  Modelled from the spec: enqueue is a no-op on a process whose \<^verbatim>\<open>already_enqueued\<close>
  guard is set; otherwise it sets the guard and puts the process into the queue of its
  level.
\<close>

definition enqueue :: "nat \<Rightarrow> sched \<Rightarrow> sched" where
  "enqueue p s =
     (if already_enqueued (ptable s p) \<noteq> 0 then s
      else
        let l = nat (level (ptable s p)) in
        s\<lparr>ptable := (ptable s)(p := (ptable s p)\<lparr>already_enqueued := 1\<rparr>),
          level_queue := (level_queue s)
            (l := if l = 2 then insert_by_priority (\<lambda>q. priority (ptable s q)) p (level_queue s l)
                  else level_queue s l @ [p])\<rparr>)"

text \<open>
  Modelled from the spec: dispatch scans the levels 0, 1, 2; the first queue that is not
  empty gives its head, which leaves the queue, becomes \<^verbatim>\<open>RUNNING\<close> and has its guard
  cleared. With no queued process there is nothing to dispatch.
\<close>

definition dispatch :: "sched \<Rightarrow> (nat \<times> sched) option" where
  "dispatch s =
     (case find (\<lambda>l. level_queue s l \<noteq> []) [0, 1, 2] of
        None \<Rightarrow> None
      | Some l \<Rightarrow>
          (case level_queue s l of
             [] \<Rightarrow> None
           | p # rest \<Rightarrow>
               Some (p, s\<lparr>ptable := (ptable s)(p := (ptable s p)\<lparr>state := RUNNING, already_enqueued := 0\<rparr>),
                          level_queue := (level_queue s)(l := rest)\<rparr>)))"

text \<open>A process table with process 4 runnable at level 1 and nothing queued.\<close>

definition sched_idle :: sched where
  "sched_idle =
     \<lparr>ptable = (\<lambda>_. \<lparr>state = RUNNABLE, level = 1, priority = 0, time_quantum = 0,
                      time_allotment = 0, lock_scheduler = 0, already_enqueued = 0\<rparr>),
      level_queue = (\<lambda>_. [])\<rparr>"

section \<open>Properties of the buffer cache\<close>

subsection \<open>The counting scans, the pool lock and the flush phase\<close>

lemma isfull_loop_count:
  "isfull_loop s bs cnt = cnt + int (length (filter (\<lambda>b. is_dirty (buf s b)) bs))"
  by (induction bs arbitrary: cnt) (auto simp: is_dirty_def)

lemma logDirty_loop_eq:
  "logDirty_loop s bs (cnt, cs) =
     (cnt + int (length (filter (\<lambda>b. is_dirty (buf s b)) bs)),
      cs @ map Log_write (filter (\<lambda>b. is_dirty (buf s b)) bs))"
  by (induction bs arbitrary: cnt cs) (auto simp: is_dirty_def)

lemma unlocked_id: "\<not> pool_lock s \<Longrightarrow> s\<lparr>pool_lock := False\<rparr> = s"
  by (cases s) simp

lemma buffer_isfull_eq:
  "\<not> pool_lock s \<Longrightarrow>
   buffer_isfull N s = Inr (if int N - 3 \<le> int (dirty_count s) then 1 else 0, s)"
  by (simp add: buffer_isfull_def acquire_def release_def isfull_loop_count dirty_count_def unlocked_id)

lemma buffer_isfull_locked: "pool_lock s \<Longrightarrow> buffer_isfull N s = Inl (Panic ''acquire'')"
  by (simp add: buffer_isfull_def acquire_def)

lemma logDirtyBuffer_eq:
  "\<not> pool_lock s \<Longrightarrow>
   logDirtyBuffer s =
     (map Log_write (filter (\<lambda>b. is_dirty (buf s b)) (head s)), Inr (int (dirty_count s), s))"
  by (simp add: logDirtyBuffer_def acquire_def release_def logDirty_loop_eq dirty_count_def unlocked_id)

lemma logDirtyBuffer_locked: "pool_lock s \<Longrightarrow> logDirtyBuffer s = ([], Inl (Panic ''acquire''))"
  by (simp add: logDirtyBuffer_def acquire_def)

lemma set_isfull_eq: "\<not> pool_lock s \<Longrightarrow> set_isfull v s = Inr (s\<lparr>isfull := v\<rparr>)"
  by (cases s) (simp add: set_isfull_def acquire_def release_def)

lemma set_isfull_locked: "pool_lock s \<Longrightarrow> set_isfull v s = Inl (Panic ''acquire'')"
  by (simp add: set_isfull_def acquire_def)

lemma dirty_count_card:
  "distinct (head s) \<Longrightarrow> dirty_count s = card {b \<in> set (head s). is_dirty (buf s b)}"
  by (simp add: dirty_count_def distinct_length_filter Int_def conj_commute)

lemma bget_flush_guarded: "isfull s \<noteq> 0 \<Longrightarrow> bget_flush N sync s = ([], Inr s)"
  by (simp add: bget_flush_def)

lemma bget_flush_calm:
  "\<not> pool_lock s \<Longrightarrow> isfull s = 0 \<Longrightarrow> int (dirty_count s) < int N - 3 \<Longrightarrow>
   bget_flush N sync s = ([], Inr s)"
  by (simp add: bget_flush_def buffer_isfull_eq)

lemma bget_flush_pressed:
  "\<not> pool_lock s \<Longrightarrow> isfull s = 0 \<Longrightarrow> int N - 3 \<le> int (dirty_count s) \<Longrightarrow>
   bget_flush N sync s =
     ([Sync], case sync (s\<lparr>isfull := 1\<rparr>) of Inl e \<Rightarrow> Inl e | Inr s3 \<Rightarrow> set_isfull 0 s3)"
  by (simp add: bget_flush_def buffer_isfull_eq set_isfull_eq split: sum.splits)

lemma bget_flush_locked:
  "pool_lock s \<Longrightarrow> isfull s = 0 \<Longrightarrow> bget_flush N sync s = ([], Inl (Panic ''acquire''))"
  by (simp add: bget_flush_def buffer_isfull_locked)

lemma count_list_distinct: "distinct xs \<Longrightarrow> count_list xs x = (if x \<in> set xs then 1 else 0)"
  by (induction xs) auto

lemma count_list_Log_write: "count_list (map Log_write xs) (Log_write b) = count_list xs b"
  by (induction xs) auto

subsection \<open>The states of the examples\<close>

lemma binit_loop_head: "binit_loop bs s = s\<lparr>head := rev bs @ head s\<rparr>"
  by (induction bs arbitrary: s) auto

lemma binit_eq: "binit N s = s\<lparr>pool_lock := False, head := rev [0..<N]\<rparr>"
  by (simp add: binit_def binit_loop_head)

lemma rev_upt_30:
  "rev [0..<30] = [29,28,27,26,25,24,23,22,21,20,19,18,17,16,15,14,13,12,11,10,9,8,7,6,5,4,3,2,1,0::nat]"
  by (simp add: upt_rec)

lemma pool_pressed_simps:
  "pool_lock pool_pressed = False" "isfull pool_pressed = 0"
  "head pool_pressed = rev [0..<30]"
  "buf pool_pressed b = (if b < 27
        then \<lparr>flags = B_VALID OR B_DIRTY, dev = 1, blockno = of_nat b, lock = None, refcnt = 0\<rparr>
        else buf0)"
  by (simp_all add: pool_pressed_def binit_eq bcache0_def)

lemma dirty_count_pressed: "dirty_count pool_pressed = 27"
  by (simp add: dirty_count_def pool_pressed_simps rev_upt_30 is_dirty_def buf0_def B_DIRTY_def B_VALID_def)

lemmas run_defs = bread_def bget_def bget_flush_def bget_scan_def bread_load_def acquiresleep_def
  brelse_def bwrite_def holdingsleep_def releasesleep_def acquire_def release_def set_isfull_def
  buffer_isfull_def cached_def recyclable_def isfull_loop_count Let_def

lemma flush_fetching_pressed:
  "flush_fetching 30 7 1 40 (pool_pressed\<lparr>isfull := 1\<rparr>) = Inr pool_flushed"
  by (simp add: pool_flushed_def flush_fetching_def run_defs pool_pressed_simps rev_upt_30 buf0_def
      B_DIRTY_def B_VALID_def ide_done_def)

lemma bget_scan_flushed:
  "bget_scan 7 1 5 (pool_flushed\<lparr>isfull := 0\<rparr>) =
     Returns 5 (pool_flushed\<lparr>isfull := 0,
       buf := (buf pool_flushed)(5 := (buf pool_flushed 5)\<lparr>refcnt := 1, lock := Some 7\<rparr>)\<rparr>)"
  by (simp add: pool_flushed_def bget_scan_def acquire_def release_def acquiresleep_def cached_def
      pool_pressed_simps rev_upt_30 buf0_def)

lemma pool_held_simps:
  "pool_lock pool_held = False" "isfull pool_held = 0" "head pool_held = [3, 2, 1, 0]"
  "buf pool_held b = \<lparr>flags = B_VALID, dev = 1, blockno = 10 + of_nat b, lock = Some 1, refcnt = 1\<rparr>"
  by (simp_all add: pool_held_def binit_eq bcache0_def upt_rec)

lemma pool_flushed_simps:
  "pool_lock pool_flushed = False" "isfull pool_flushed = 1"
  by (simp_all add: pool_flushed_def pool_pressed_simps)

subsection \<open>The pointers and the list\<close>

text \<open>
  The pointer assignments of binit and brelse keep a well-formed ring, and its sequence
  is the list of the model: \<open>rev [0..<N]\<close> after binit, the buffer moved to the front
  after brelse. On a well-formed ring the loop along \<^verbatim>\<open>next\<close> visits the list and the loop
  along \<^verbatim>\<open>prev\<close> its reverse, and both come back to the head.
\<close>

lemma path_cong:
  "(\<forall>x \<in> set (a # butlast xs). f x = g x) \<Longrightarrow> path f a xs = path g a xs"
  by (induction xs arbitrary: a) (auto split: if_splits)

lemma path_append:
  "path f a (xs @ ys) = (path f a xs \<and> path f (last (a # xs)) ys)"
  by (induction xs arbitrary: a) auto

lemma link_front_dll:
  assumes "dll h l xs" "b \<notin> set xs" "b \<noteq> h"
  shows "dll h (link_front h b l) (b # xs)"
proof -
  let ?n = "(nxt l)(b := nxt l h, h := b)"
  let ?p = "(prv l)(b := h, nxt l h := b)"
  have lf: "nxt (link_front h b l) = ?n" "prv (link_front h b l) = ?p"
    using assms(3) by (simp_all add: link_front_def Let_def)
  from assms(1) have h: "h \<notin> set xs" and d: "distinct xs"
    and rn: "path (nxt l) h (xs @ [h])" and rp: "path (prv l) h (rev xs @ [h])"
    by (simp_all add: dll_def ring_def)
  have n: "path ?n h (b # xs @ [h])"
  proof (cases xs)
    case Nil
    with rn assms(3) show ?thesis by simp
  next
    case (Cons x ys)
    have "path ?n x (ys @ [h]) = path (nxt l) x (ys @ [h])"
      using Cons h assms(2) by (intro path_cong) (auto simp: butlast_append)
    with rn Cons assms(2,3) h show ?thesis by simp
  qed
  have p: "path ?p h (rev xs @ [b, h])"
  proof (cases xs)
    case Nil
    with rn assms(3) show ?thesis by simp
  next
    case (Cons x ys)
    then have first: "nxt l h = x" using rn by simp
    have 1: "path ?p h (rev ys @ [x]) = path (prv l) h (rev ys @ [x])"
      using Cons h d assms(2,3) first by (intro path_cong) (auto simp: butlast_append)
    have 2: "path (prv l) h (rev ys @ [x])"
      using rp Cons by (simp add: path_append)
    have "path ?p h ((rev ys @ [x]) @ [b, h])"
      unfolding path_append [of ?p h "rev ys @ [x]"] using 1 2 first assms(2,3) Cons by simp
    then show ?thesis using Cons by simp
  qed
  show ?thesis
    unfolding dll_def ring_def lf using n p h d assms(2,3) by simp
qed

lemma path_skip:
  assumes "path f h (ys @ b # zs @ [h])" "distinct (ys @ b # zs)" "h \<notin> set (ys @ b # zs)"
  shows "path (f(last (h # ys) := f b)) h (ys @ zs @ [h])"
proof -
  let ?g = "f(last (h # ys) := f b)"
  from assms(1) have 1: "path f h ys" and 2: "path f b (zs @ [h])"
    by (simp_all add: path_append)
  have lastys: "ys \<noteq> [] \<Longrightarrow> last ys \<notin> set (butlast ys) \<and> last ys \<in> set ys"
    using assms(2) by (metis append_butlast_last_id distinct_append distinct_butlast last_in_set
        not_distinct_conv_prefix distinct.simps(2) distinct1_rotate rotate1.simps(2))
  have a: "path ?g h ys = path f h ys"
  proof (cases "ys = []")
    case True
    then show ?thesis by simp
  next
    case False
    then show ?thesis
      using assms(3) lastys by (intro path_cong) (auto simp: in_set_butlastD)
  qed
  have b: "path ?g (last (h # ys)) (zs @ [h])"
  proof (cases zs)
    case Nil
    with 2 show ?thesis by simp
  next
    case (Cons z zs')
    have "last (h # ys) \<in> set (h # ys)" by (rule last_in_set) simp
    then have "last (h # ys) \<notin> set (z # zs')"
      using assms(2,3) Cons by auto
    then have "path ?g z (zs' @ [h]) = path f z (zs' @ [h])"
      by (intro path_cong) (auto simp: butlast_append)
    with 2 Cons show ?thesis by simp
  qed
  show ?thesis
    unfolding path_append [of ?g h ys] using a 1 b by simp
qed

lemma unlink_dll:
  assumes "dll h l (ys @ b # zs)"
  shows "dll h (unlink b l) (ys @ zs)"
proof -
  from assms have h: "h \<notin> set (ys @ b # zs)" and d: "distinct (ys @ b # zs)"
    and rn: "path (nxt l) h (ys @ b # zs @ [h])"
    and rp: "path (prv l) h (rev zs @ b # rev ys @ [h])"
    by (simp_all add: dll_def ring_def)
  have nb: "nxt l b = hd (zs @ [h])"
    using rn by (cases zs) (simp_all add: path_append)
  have pb: "prv l b = last (h # ys)"
    using rp by (cases ys rule: rev_cases) (simp_all add: path_append)
  have ne: "nxt l b \<noteq> b"
    using nb h d by (cases zs) auto
  have un: "nxt (unlink b l) = (nxt l)(last (h # ys) := nxt l b)"
    and up: "prv (unlink b l) = (prv l)(last (h # rev zs) := prv l b)"
  proof -
    have "last (h # rev zs) = hd (zs @ [h])" by (cases zs) simp_all
    then show "prv (unlink b l) = (prv l)(last (h # rev zs) := prv l b)"
      using nb by (simp add: unlink_def Let_def)
    show "nxt (unlink b l) = (nxt l)(last (h # ys) := nxt l b)"
      using ne pb by (simp add: unlink_def Let_def)
  qed
  have 1: "path (nxt (unlink b l)) h (ys @ zs @ [h])"
    unfolding un using rn d h by (intro path_skip) simp_all
  have 2: "path (prv (unlink b l)) h (rev zs @ rev ys @ [h])"
    unfolding up using rp d h by (intro path_skip) auto
  show ?thesis
    unfolding dll_def ring_def using 1 2 h d by simp
qed

lemma move_front_dll:
  assumes "dll h l xs" "b \<in> set xs"
  shows "dll h (move_front h b l) (b # remove1 b xs)"
proof -
  from assms(2) obtain ys zs where xs: "xs = ys @ b # zs" "b \<notin> set ys"
    by (meson split_list_first)
  from assms(1) xs have d: "distinct (ys @ b # zs)" and h: "h \<notin> set (ys @ b # zs)"
    by (simp_all add: dll_def)
  have r: "remove1 b xs = ys @ zs"
    using xs by (simp add: remove1_append)
  have "dll h (unlink b l) (ys @ zs)"
    using assms(1) xs by (intro unlink_dll) simp
  then have "dll h (link_front h b (unlink b l)) (b # ys @ zs)"
    using d h by (intro link_front_dll) auto
  then show ?thesis by (simp add: move_front_def r)
qed

lemma binit_links_loop_dll:
  "dll h l xs \<Longrightarrow> distinct bs \<Longrightarrow> \<forall>b \<in> set bs. b \<notin> set xs \<and> b \<noteq> h \<Longrightarrow>
   dll h (binit_links_loop h bs l) (rev bs @ xs)"
proof (induction bs arbitrary: l xs)
  case Nil
  then show ?case by simp
next
  case (Cons b bs)
  have "dll h (link_front h b l) (b # xs)"
    using Cons.prems by (intro link_front_dll) simp_all
  then have "dll h (binit_links_loop h bs (link_front h b l)) (rev bs @ b # xs)"
    using Cons.prems by (intro Cons.IH) auto
  then show ?case by simp
qed

lemma binit_links_dll: "dll N (binit_links N l) (rev [0..<N])"
proof -
  have "dll N (l\<lparr>prv := (prv l)(N := N), nxt := (nxt l)(N := N)\<rparr>) []"
    by (simp add: dll_def ring_def)
  then have "dll N (binit_links N l) (rev [0..<N] @ [])"
    unfolding binit_links_def by (intro binit_links_loop_dll) simp_all
  then show ?thesis by simp
qed

lemma walk_path:
  "path f a (xs @ [h]) \<Longrightarrow> h \<notin> set xs \<Longrightarrow> length xs \<le> k \<Longrightarrow> walk f h k (f a) = Some xs"
proof (induction xs arbitrary: a k)
  case Nil
  then show ?case by (cases k) simp_all
next
  case (Cons x xs)
  then obtain k' where k: "k = Suc k'" "length xs \<le> k'" by (cases k) auto
  from Cons.prems have "f a = x" "x \<noteq> h" "path f x (xs @ [h])" "h \<notin> set xs" by auto
  with Cons.IH [of x k'] k show ?case by simp
qed

lemma walk_dll:
  assumes "dll h l xs" "length xs \<le> k"
  shows "walk (nxt l) h k (nxt l h) = Some xs" "walk (prv l) h k (prv l h) = Some (rev xs)"
  using assms by (auto simp: dll_def ring_def intro!: walk_path)

lemma binit_links_head: "dll N (binit_links N l) (head (binit N s))"
  using binit_links_dll [of N l] by (simp add: binit_eq)

subsection \<open>The scans of bget\<close>

lemma cached_pool_lock [simp]: "cached (s\<lparr>pool_lock := x\<rparr>) d n = cached s d n"
  by (rule ext) (simp add: cached_def)

lemma recyclable_pool_lock [simp]: "recyclable (s\<lparr>pool_lock := x\<rparr>) = recyclable s"
  by (rule ext) (simp add: recyclable_def)

lemma bget_scan_locked: "pool_lock s \<Longrightarrow> bget_scan p d n s = Fatal (Panic ''acquire'')"
  by (simp add: bget_scan_def acquire_def)

lemma release_after_acquire:
  "\<not> pool_lock s \<Longrightarrow> release (s\<lparr>pool_lock := True, buf := f\<rparr>) = Inr (s\<lparr>buf := f\<rparr>)"
  by (cases s) (simp add: release_def)

lemma bget_scan_hit:
  "\<not> pool_lock s \<Longrightarrow> find (cached s d n) (head s) = Some b \<Longrightarrow>
   bget_scan p d n s =
     acquiresleep p b (s\<lparr>buf := (buf s)(b := (buf s b)\<lparr>refcnt := refcnt (buf s b) + 1\<rparr>)\<rparr>)"
  by (simp add: bget_scan_def acquire_def release_after_acquire)

lemma bget_scan_miss:
  "\<not> pool_lock s \<Longrightarrow> find (cached s d n) (head s) = None \<Longrightarrow>
   find (recyclable s) (rev (head s)) = Some v \<Longrightarrow>
   bget_scan p d n s =
     acquiresleep p v (s\<lparr>buf := (buf s)(v := (buf s v)\<lparr>dev := d, blockno := n, flags := 0, refcnt := 1\<rparr>)\<rparr>)"
  by (simp add: bget_scan_def acquire_def release_after_acquire)

lemma bget_scan_none:
  "\<not> pool_lock s \<Longrightarrow> find (cached s d n) (head s) = None \<Longrightarrow>
   find (recyclable s) (rev (head s)) = None \<Longrightarrow>
   bget_scan p d n s = Fatal (Panic ''bget: no buffers'')"
  by (simp add: bget_scan_def acquire_def)

lemma find_rev_last:
  "find P (rev xs) = Some v \<Longrightarrow> \<exists>ys zs. xs = ys @ v # zs \<and> P v \<and> (\<forall>x \<in> set zs. \<not> P x)"
proof -
  assume "find P (rev xs) = Some v"
  then obtain i where i: "i < length (rev xs)" "P (rev xs ! i)" "v = rev xs ! i"
    "\<forall>j<i. \<not> P (rev xs ! j)"
    by (auto simp: find_Some_iff)
  have "rev xs = take i (rev xs) @ v # drop (Suc i) (rev xs)"
    using i(1,3) by (simp add: id_take_nth_drop)
  then have "xs = rev (drop (Suc i) (rev xs)) @ v # rev (take i (rev xs))"
    by (metis rev_append rev.simps(2) rev_rev_ident append.assoc append_Cons append_Nil)
  moreover have "\<forall>x \<in> set (rev (take i (rev xs))). \<not> P x"
    using i(4) by (auto simp: in_set_conv_nth)
  ultimately show ?thesis using i(2,3) by blast
qed

lemma find_None_set: "find P xs = None \<longleftrightarrow> (\<forall>x \<in> set xs. \<not> P x)"
  by (auto simp: find_None_iff)

lemma find_Some_set: "find P xs = Some x \<Longrightarrow> x \<in> set xs \<and> P x"
  by (induction xs) (auto split: if_splits)

lemma bget_flush_cases:
  assumes "bget_flush N sync s = (cs, Inr s1)"
  shows "(s1 = s \<and> cs = [] \<and> \<not> (isfull s = 0 \<and> \<not> pool_lock s \<and> int N - 3 \<le> int (dirty_count s))) \<or>
         (\<exists>s3. isfull s = 0 \<and> \<not> pool_lock s \<and> int N - 3 \<le> int (dirty_count s) \<and>
               sync (s\<lparr>isfull := 1\<rparr>) = Inr s3 \<and> \<not> pool_lock s3 \<and> s1 = s3\<lparr>isfull := 0\<rparr> \<and> cs = [Sync])"
proof (cases "isfull s = 0")
  case False
  with assms show ?thesis by (simp add: bget_flush_guarded)
next
  case z: True
  show ?thesis
  proof (cases "pool_lock s")
    case True
    with z assms show ?thesis by (simp add: bget_flush_locked)
  next
    case u: False
    show ?thesis
    proof (cases "int N - 3 \<le> int (dirty_count s)")
      case False
      with z u assms show ?thesis by (simp add: bget_flush_calm)
    next
      case True
      with z u assms obtain s3 where s3: "sync (s\<lparr>isfull := 1\<rparr>) = Inr s3" "set_isfull 0 s3 = Inr s1" "cs = [Sync]"
        by (auto simp: bget_flush_pressed split: sum.splits)
      have "\<not> pool_lock s3" using s3(2) by (auto simp: set_isfull_locked)
      with s3 True z u show ?thesis by (auto simp: set_isfull_eq)
    qed
  qed
qed

lemma bread_unfold:
  "bget_flush N sync s = (cs, Inr s1) \<Longrightarrow>
   bread N sync iderw p d n s =
     (case bget_scan p d n s1 of
        Returns b s2 \<Rightarrow> (cs @ fst (bread_load iderw b s2), Returns b (snd (bread_load iderw b s2)))
      | Asleep b s2 \<Rightarrow> (cs, Asleep b s2)
      | Fatal e \<Rightarrow> (cs, Fatal e))"
  by (simp add: bread_def bget_def split: outcome.splits prod.splits)

lemma recyclable_iff: "recyclable s b \<longleftrightarrow> refcnt (buf s b) = 0 \<and> \<not> is_dirty (buf s b)"
  by (simp add: recyclable_def is_dirty_def)


lemma brelse_effect:
  assumes "brelse q v s0 = Inr s"
  shows "lock (buf s0 v) = Some q \<and> \<not> pool_lock s0 \<and> \<not> pool_lock s \<and> isfull s = isfull s0 \<and>
         buf s = (buf s0)(v := (buf s0 v)\<lparr>lock := None, refcnt := refcnt (buf s0 v) - 1\<rparr>) \<and>
         head s = (if refcnt (buf s0 v) = 1 then v # remove1 v (head s0) else head s0)"
  using assms
  by (cases s0) (auto simp: brelse_def holdingsleep_def releasesleep_def acquire_def release_def Let_def
      split: if_splits)

lemma flush_noop_pressed:
  "bget_flush 30 Inr pool_pressed = ([Sync], Inr (pool_pressed\<lparr>isfull := 0\<rparr>))"
  by (simp add: bget_flush_pressed pool_pressed_simps dirty_count_pressed set_isfull_eq)














subsection \<open>Reference counts along a run\<close>

lemma acquiresleep_Returns:
  "acquiresleep p b s = Returns b' s' \<longleftrightarrow>
     b' = b \<and> lock (buf s b) = None \<and> s' = s\<lparr>buf := (buf s)(b := (buf s b)\<lparr>lock := Some p\<rparr>)\<rparr>"
  by (auto simp: acquiresleep_def)

lemma acquiresleep_Asleep:
  "acquiresleep p b s = Asleep b' s' \<longleftrightarrow> b' = b \<and> lock (buf s b) \<noteq> None \<and> s' = s"
  by (auto simp: acquiresleep_def)

lemma acquiresleep_not_Fatal: "acquiresleep p b s \<noteq> Fatal e"
  by (simp add: acquiresleep_def)

text \<open>What a scan that does not panic has done.\<close>

lemma bget_scan_effect:
  assumes "bget_scan p d n s = r" "r = Returns b s' \<or> r = Asleep b s'"
  shows "\<not> pool_lock s \<and> b \<in> set (head s) \<and>
         ((cached s d n b \<and>
             r = acquiresleep p b (s\<lparr>buf := (buf s)(b := (buf s b)\<lparr>refcnt := refcnt (buf s b) + 1\<rparr>)\<rparr>)) \<or>
          ((\<forall>x \<in> set (head s). \<not> cached s d n x) \<and> recyclable s b \<and>
             r = acquiresleep p b (s\<lparr>buf := (buf s)(b := (buf s b)\<lparr>dev := d, blockno := n, flags := 0, refcnt := 1\<rparr>)\<rparr>)))"
proof -
  have u: "\<not> pool_lock s"
    using assms by (auto simp: bget_scan_locked)
  show ?thesis
  proof (cases "find (cached s d n) (head s)")
    case (Some c)
    have r: "r = acquiresleep p c (s\<lparr>buf := (buf s)(c := (buf s c)\<lparr>refcnt := refcnt (buf s c) + 1\<rparr>)\<rparr>)"
      using assms(1) bget_scan_hit [OF u Some] by simp
    then have "c = b" using assms(2) by (auto simp: acquiresleep_def split: if_splits)
    with r u find_Some_set [OF Some] show ?thesis by simp
  next
    case None
    then have nc: "\<forall>x \<in> set (head s). \<not> cached s d n x" by (simp add: find_None_set)
    show ?thesis
    proof (cases "find (recyclable s) (rev (head s))")
      case miss: None
      with None u assms show ?thesis by (auto simp: bget_scan_none)
    next
      case (Some v)
      have r: "r = acquiresleep p v (s\<lparr>buf := (buf s)(v := (buf s v)\<lparr>dev := d, blockno := n, flags := 0, refcnt := 1\<rparr>)\<rparr>)"
        using assms(1) bget_scan_miss [OF u None Some] by simp
      then have "v = b" using assms(2) by (auto simp: acquiresleep_def split: if_splits)
      with r u nc find_Some_set [OF Some] show ?thesis by simp
    qed
  qed
qed

lemma covered_isfull [simp]: "covered w (s\<lparr>isfull := v\<rparr>) = covered w s"
  by (simp add: covered_def)

lemma covered_flush:
  assumes "flush_balanced sync" "bget_flush N sync s = (cs, Inr s1)" "covered w s"
  shows "covered w s1"
proof -
  from bget_flush_cases [OF assms(2)] show ?thesis
  proof
    assume "s1 = s \<and> cs = [] \<and> \<not> (isfull s = 0 \<and> \<not> pool_lock s \<and> int N - 3 \<le> int (dirty_count s))"
    with assms(3) show ?thesis by simp
  next
    assume "\<exists>s3. isfull s = 0 \<and> \<not> pool_lock s \<and> int N - 3 \<le> int (dirty_count s) \<and>
               sync (s\<lparr>isfull := 1\<rparr>) = Inr s3 \<and> \<not> pool_lock s3 \<and> s1 = s3\<lparr>isfull := 0\<rparr> \<and> cs = [Sync]"
    then obtain s3 where s3: "sync (s\<lparr>isfull := 1\<rparr>) = Inr s3" "s1 = s3\<lparr>isfull := 0\<rparr>" by blast
    have "\<forall>b. refcnt (buf s3 b) = refcnt (buf s b) \<and> lock (buf s3 b) = lock (buf s b)"
      using assms(1) s3(1) unfolding flush_balanced_def by fastforce
    with assms(3) s3(2) show ?thesis by (simp add: covered_def)
  qed
qed

lemma covered_at:
  "covered w s \<Longrightarrow> int (w b) + (if lock (buf s b) = None then 0 else 1) \<le> refcnt (buf s b)"
  by (simp add: covered_def)

lemma covered_upd:
  assumes "covered w s"
    and "int (w' b) + (if lock f = None then 0 else 1) \<le> refcnt f"
    and "\<forall>x. x \<noteq> b \<longrightarrow> w' x = w x"
  shows "covered w' (s\<lparr>buf := (buf s)(b := f)\<rparr>)"
  unfolding covered_def
proof
  fix x
  show "int (w' x) + (if lock (buf (s\<lparr>buf := (buf s)(b := f)\<rparr>) x) = None then 0 else 1)
        \<le> refcnt (buf (s\<lparr>buf := (buf s)(b := f)\<rparr>) x)"
    using covered_at [OF assms(1), of x] assms(2,3) by (cases "x = b") simp_all
qed

lemma covered_scan:
  assumes "covered w s" "bget_scan p d n s = r"
  shows "(r = Returns b s' \<longrightarrow> covered w s') \<and> (r = Asleep b s' \<longrightarrow> covered (w(b := Suc (w b))) s')"
proof (cases "r = Returns b s' \<or> r = Asleep b s'")
  case False
  then show ?thesis by simp
next
  case True
  note at = covered_at [OF assms(1), of b]
  from bget_scan_effect [OF assms(2) True] consider
    (hit) "cached s d n b \<and>
      r = acquiresleep p b (s\<lparr>buf := (buf s)(b := (buf s b)\<lparr>refcnt := refcnt (buf s b) + 1\<rparr>)\<rparr>)"
    | (miss) "(\<forall>x \<in> set (head s). \<not> cached s d n x) \<and> recyclable s b \<and>
      r = acquiresleep p b (s\<lparr>buf := (buf s)(b := (buf s b)\<lparr>dev := d, blockno := n, flags := 0, refcnt := 1\<rparr>)\<rparr>)"
    by blast
  then show ?thesis
  proof cases
    case hit
    note a = hit
    show ?thesis
    proof (cases "lock (buf s b) = None")
      case True
      have "covered w (s\<lparr>buf := (buf s)(b := (buf s b)\<lparr>refcnt := refcnt (buf s b) + 1, lock := Some p\<rparr>)\<rparr>)"
        using at True by (intro covered_upd [OF assms(1)]) simp_all
      with a True show ?thesis by (auto simp: acquiresleep_def)
    next
      case False
      have "covered (w(b := Suc (w b))) (s\<lparr>buf := (buf s)(b := (buf s b)\<lparr>refcnt := refcnt (buf s b) + 1\<rparr>)\<rparr>)"
        using at False by (intro covered_upd [OF assms(1)]) simp_all
      with a False show ?thesis by (auto simp: acquiresleep_def)
    qed
  next
    case miss
    note a = miss
    then have z: "refcnt (buf s b) = 0" by (simp add: recyclable_def)
    have free: "lock (buf s b) = None" and now: "w b = 0"
      using at z by (auto split: if_splits)
    have "covered w (s\<lparr>buf := (buf s)(b := (buf s b)\<lparr>dev := d, blockno := n, flags := 0, refcnt := 1, lock := Some p\<rparr>)\<rparr>)"
      using now by (intro covered_upd [OF assms(1)]) simp_all
    with a free show ?thesis by (auto simp: acquiresleep_def)
  qed
qed

lemma covered_load: "covered w s \<Longrightarrow> covered w (snd (bread_load iderw b s))"
  using covered_at [of w s b]
  by (auto simp: bread_load_def intro!: covered_upd)

lemma covered_bread:
  assumes "flush_balanced sync" "covered w s"
  shows "(snd (bread N sync iderw p d n s) = Returns b s' \<longrightarrow> covered w s') \<and>
         (snd (bread N sync iderw p d n s) = Asleep b s' \<longrightarrow> covered (w(b := Suc (w b))) s')"
proof (cases "bget_flush N sync s")
  case (Pair cs x)
  show ?thesis
  proof (cases x)
    case (Inl e)
    with Pair show ?thesis by (simp add: bread_def bget_def)
  next
    case (Inr s1)
    have c1: "covered w s1" using covered_flush [OF assms(1) _ assms(2)] Pair Inr by simp
    note br = bread_unfold [of N sync s cs s1 iderw p d n]
    show ?thesis
      using Pair Inr br covered_scan [OF c1 refl, of p d n] covered_load
      by (auto split: outcome.splits)
  qed
qed

lemma covered_wakeup:
  assumes "covered w s" "0 < w b" "snd (bread_wakeup iderw p b s) = Returns b' s'"
  shows "covered (w(b := w b - 1)) s'"
proof -
  have free: "lock (buf s b) = None" and s': "s' = snd (bread_load iderw b (s\<lparr>buf := (buf s)(b := (buf s b)\<lparr>lock := Some p\<rparr>)\<rparr>))"
    using assms(3) by (auto simp: bread_wakeup_def acquiresleep_def split: if_splits prod.splits)
  have "covered (w(b := w b - 1)) (s\<lparr>buf := (buf s)(b := (buf s b)\<lparr>lock := Some p\<rparr>)\<rparr>)"
    using covered_at [OF assms(1), of b] free assms(2) by (intro covered_upd [OF assms(1)]) auto
  then show ?thesis unfolding s' by (rule covered_load)
qed

lemma covered_bwrite:
  "covered w s \<Longrightarrow> snd (bwrite iderw p b s) = Inr s' \<Longrightarrow> covered w s'"
  using covered_at [of w s b]
  by (auto simp: bwrite_def Let_def holdingsleep_def split: if_splits intro!: covered_upd)

lemma covered_pool_lock [simp]: "covered w (s\<lparr>pool_lock := v\<rparr>) = covered w s"
  by (simp add: covered_def)

lemma covered_head [simp]: "covered w (s\<lparr>head := v\<rparr>) = covered w s"
  by (simp add: covered_def)

lemma covered_brelse:
  assumes "covered w s" "brelse p b s = Inr s'"
  shows "covered w s'"
proof -
  note eff = brelse_effect [OF assms(2)]
  have "covered w (s\<lparr>buf := (buf s)(b := (buf s b)\<lparr>lock := None, refcnt := refcnt (buf s b) - 1\<rparr>)\<rparr>)"
    using covered_at [OF assms(1), of b] eff by (intro covered_upd [OF assms(1)]) auto
  then show ?thesis
    using eff by (simp add: covered_def)
qed

lemma waiters_Cons:
  "waiters (t\<lparr>cache := s, asleep := (p, b) # asleep t\<rparr>) = (waiters t)(b := Suc (waiters t b))"
  by (rule ext) (simp add: waiters_def)

lemma waiters_cache [simp]: "waiters (t\<lparr>cache := s\<rparr>) = waiters t"
  by (rule ext) (simp add: waiters_def)

lemma length_filter_remove1:
  "x \<in> set xs \<Longrightarrow> P x \<Longrightarrow> Suc (length (filter P (remove1 x xs))) = length (filter P xs)"
  by (induction xs) auto

lemma filter_remove1_other: "\<not> P x \<Longrightarrow> filter P (remove1 x xs) = filter P xs"
  by (induction xs) auto

lemma waiters_remove1:
  assumes "(p, b) \<in> set (asleep t)"
  shows "0 < waiters t b \<and>
         waiters (t\<lparr>cache := s, asleep := remove1 (p, b) (asleep t)\<rparr>) = (waiters t)(b := waiters t b - 1)"
proof -
  have 1: "Suc (length (filter (\<lambda>x. snd x = b) (remove1 (p, b) (asleep t)))) =
           length (filter (\<lambda>x. snd x = b) (asleep t))"
    using assms by (intro length_filter_remove1) simp_all
  have 2: "c \<noteq> b \<Longrightarrow> filter (\<lambda>x. snd x = c) (remove1 (p, b) (asleep t)) = filter (\<lambda>x. snd x = c) (asleep t)" for c
    by (intro filter_remove1_other) simp
  show ?thesis
    using 1 2 by (auto simp: waiters_def fun_eq_iff)
qed

lemma refs_cover_exec_op:
  assumes fb: "flush_balanced sync" and rc: "refs_cover t" and ex: "exec_op N sync iderw x t = Inr t'"
  shows "refs_cover t'"
proof (cases x)
  case (Fetch p d n)
  show ?thesis
  proof (cases "sleeping t p")
    case True
    with Fetch ex rc show ?thesis by simp
  next
    case False
    note cb = covered_bread [OF fb rc [unfolded refs_cover_def], of N iderw p d n]
    show ?thesis
      using Fetch False ex cb
      by (auto simp: refs_cover_def waiters_Cons split: outcome.splits)
  qed
next
  case (Wakeup p b)
  show ?thesis
  proof (cases "(p, b) \<in> set (asleep t)")
    case False
    with Wakeup ex rc show ?thesis by simp
  next
    case True
    note wr = waiters_remove1 [OF True]
    show ?thesis
      using Wakeup True ex rc wr covered_wakeup [of "waiters t" "cache t" b iderw p]
      by (auto simp: refs_cover_def split: outcome.splits)
  qed
next
  case (Write p b)
  then show ?thesis
    using ex rc covered_bwrite [of "waiters t" "cache t" iderw p b]
    by (auto simp: refs_cover_def split: if_splits sum.splits)
next
  case (Release p b)
  then show ?thesis
    using ex rc covered_brelse [of "waiters t" "cache t" p b]
    by (auto simp: refs_cover_def split: if_splits sum.splits)
qed

lemma refs_cover_run:
  "flush_balanced sync \<Longrightarrow> refs_cover t \<Longrightarrow> run N sync iderw xs t = Inr t' \<Longrightarrow> refs_cover t'"
proof (induction xs arbitrary: t)
  case Nil
  then show ?case by simp
next
  case (Cons x xs)
  then show ?case
    by (auto split: sum.splits dest: refs_cover_exec_op)
qed

lemma refs_cover_boot: "refs_cover (boot N)"
  by (simp add: refs_cover_def covered_def boot_def waiters_def binit_eq bcache0_def buf0_def)

lemma refs_cover_nonneg: "refs_cover t \<Longrightarrow> 0 \<le> refcnt (buf (cache t) b)"
  using covered_at [of "waiters t" "cache t" b]
  by (auto simp: refs_cover_def split: if_splits)

lemma flush_commit_balanced: "flush_balanced flush_commit"
  by (simp add: flush_balanced_def flush_commit_def)

lemma boot4: "boot 4 = \<lparr>cache = \<lparr>pool_lock = False, buf = (\<lambda>_. buf0), isfull = 0, head = [3, 2, 1, 0]\<rparr>, asleep = []\<rparr>"
  by (simp add: boot_def binit_eq bcache0_def upt_rec)

lemma run_example:
  "\<exists>t. run 4 flush_commit ide_keep
      [Fetch 1 1 10, Fetch 2 1 10, Write 1 0, Release 1 0, Wakeup 2 0, Release 2 0, Fetch 3 1 11] (boot 4) = Inr t
     \<and> refcnt (buf (cache t) 0) = 0 \<and> refcnt (buf (cache t) 1) = 1 \<and> head (cache t) = [0, 3, 2, 1]
     \<and> asleep t = [] \<and> flags (buf (cache t) 0) = B_VALID"
  by (simp add: boot4 sleeping_def run_defs bread_wakeup_def ide_keep_def flush_commit_def buf0_def
      dirty_count_def is_dirty_def B_VALID_def B_DIRTY_def)

subsection \<open>Identities along a run\<close>

lemma unique_ids_cong:
  assumes "unique_ids Z s" "set (head s') = set (head s)"
    and "\<forall>b \<in> set (head s). dev (buf s' b) = dev (buf s b) \<and> blockno (buf s' b) = blockno (buf s b)"
  shows "unique_ids Z s'"
  using assms unfolding unique_ids_def by auto

lemma locked_on_list_cong:
  assumes "locked_on_list s" "set (head s') = set (head s)"
    and "\<forall>b. lock (buf s' b) \<noteq> None \<longrightarrow> lock (buf s b) \<noteq> None \<or> b \<in> set (head s)"
  shows "locked_on_list s'"
  using assms unfolding locked_on_list_def by blast

lemma locked_on_list_upd:
  assumes "locked_on_list s" "b \<in> set (head s)" "set (head s') = set (head s)"
    and "\<forall>x. x \<noteq> b \<longrightarrow> lock (buf s' x) = lock (buf s x)"
  shows "locked_on_list s'"
  unfolding locked_on_list_def
proof (intro allI impI)
  fix x
  assume "lock (buf s' x) \<noteq> None"
  then show "x \<in> set (head s')"
    using assms unfolding locked_on_list_def by (cases "x = b") auto
qed

lemma ids_isfull [simp]:
  "unique_ids Z (s\<lparr>isfull := v\<rparr>) = unique_ids Z s" "locked_on_list (s\<lparr>isfull := v\<rparr>) = locked_on_list s"
  by (simp_all add: unique_ids_def locked_on_list_def)

lemma ids_flush:
  assumes "flush_keeps_ids Z sync" "bget_flush N sync s = (cs, Inr s1)"
  shows "set (head s1) = set (head s) \<and>
         (unique_ids Z s \<and> locked_on_list s \<longrightarrow> unique_ids Z s1 \<and> locked_on_list s1)"
proof -
  from bget_flush_cases [OF assms(2)] consider
    (same) "s1 = s"
    | (flushed) s3 where "sync (s\<lparr>isfull := 1\<rparr>) = Inr s3" "s1 = s3\<lparr>isfull := 0\<rparr>"
    by blast
  then show ?thesis
  proof cases
    case same
    then show ?thesis by simp
  next
    case flushed
    from assms(1) flushed(1) have
      "set (head s3) = set (head (s\<lparr>isfull := 1\<rparr>)) \<and>
       (unique_ids Z (s\<lparr>isfull := 1\<rparr>) \<and> locked_on_list (s\<lparr>isfull := 1\<rparr>)
          \<longrightarrow> unique_ids Z s3 \<and> locked_on_list s3)"
      unfolding flush_keeps_ids_def by blast
    with flushed(2) show ?thesis by simp
  qed
qed

lemma ids_scan:
  assumes "bget_scan p d n s = r" "r = Returns b s' \<or> r = Asleep b s'"
  shows "b \<in> set (head s) \<and> head s' = head s \<and> (unique_ids Z s \<longrightarrow> unique_ids Z s') \<and>
         (locked_on_list s \<longrightarrow> locked_on_list s')"
proof -
  from bget_scan_effect [OF assms] have mem: "b \<in> set (head s)" by simp
  from bget_scan_effect [OF assms] consider
    (hit) "cached s d n b \<and>
      r = acquiresleep p b (s\<lparr>buf := (buf s)(b := (buf s b)\<lparr>refcnt := refcnt (buf s b) + 1\<rparr>)\<rparr>)"
    | (miss) "(\<forall>x \<in> set (head s). \<not> cached s d n x) \<and> recyclable s b \<and>
      r = acquiresleep p b (s\<lparr>buf := (buf s)(b := (buf s b)\<lparr>dev := d, blockno := n, flags := 0, refcnt := 1\<rparr>)\<rparr>)"
    by blast
  then show ?thesis
  proof cases
    case hit
    then have h: "head s' = head s"
      and f: "\<forall>x. dev (buf s' x) = dev (buf s x) \<and> blockno (buf s' x) = blockno (buf s x)"
      and l: "\<forall>x. x \<noteq> b \<longrightarrow> lock (buf s' x) = lock (buf s x)"
      using assms(2) by (auto simp: acquiresleep_def split: if_splits)
    have "unique_ids Z s'" if "unique_ids Z s"
      using that h f by (intro unique_ids_cong [of Z s s']) simp_all
    moreover have "locked_on_list s'" if "locked_on_list s"
      using that mem h l by (intro locked_on_list_upd [of s b s']) simp_all
    ultimately show ?thesis
      using mem h by blast
  next
    case miss
    then have h: "head s' = head s"
      and f: "\<forall>x. x \<noteq> b \<longrightarrow> buf s' x = buf s x"
      and i: "dev (buf s' b) = d \<and> blockno (buf s' b) = n"
      using assms(2) by (auto simp: acquiresleep_def split: if_splits)
    have u: "unique_ids Z s'" if "unique_ids Z s"
      unfolding unique_ids_def
    proof (intro ballI impI)
      fix b1 b2
      assume m: "b1 \<in> set (head s')" "b2 \<in> set (head s')"
        and e: "dev (buf s' b1) = dev (buf s' b2) \<and> blockno (buf s' b1) = blockno (buf s' b2) \<and>
                (dev (buf s' b1), blockno (buf s' b1)) \<notin> Z"
      show "b1 = b2"
      proof (cases "b1 = b \<or> b2 = b")
        case True
        have no: "x \<in> set (head s) \<Longrightarrow> x \<noteq> b \<Longrightarrow>
                  \<not> (dev (buf s' x) = d \<and> blockno (buf s' x) = n)" for x
          using miss f by (auto simp: cached_def)
        show ?thesis
        proof (rule ccontr)
          assume ne: "b1 \<noteq> b2"
          from True ne have "(b1 = b \<and> b2 \<noteq> b) \<or> (b2 = b \<and> b1 \<noteq> b)" by auto
          then show False
            using no [of b1] no [of b2] m h e i by auto
        qed
      next
        case False
        then show ?thesis
          using m e h f that unfolding unique_ids_def by auto
      qed
    qed
    have l: "\<forall>x. x \<noteq> b \<longrightarrow> lock (buf s' x) = lock (buf s x)"
      using f by simp
    have "locked_on_list s'" if "locked_on_list s"
      using that mem h l by (intro locked_on_list_upd [of s b s']) simp_all
    then show ?thesis
      using mem h u by blast
  qed
qed

lemma ids_flags:
  "(unique_ids Z s \<longrightarrow> unique_ids Z (s\<lparr>buf := (buf s)(b := (buf s b)\<lparr>flags := f\<rparr>)\<rparr>)) \<and>
   (locked_on_list s \<longrightarrow> locked_on_list (s\<lparr>buf := (buf s)(b := (buf s b)\<lparr>flags := f\<rparr>)\<rparr>))"
proof (intro conjI impI)
  assume "unique_ids Z s"
  then show "unique_ids Z (s\<lparr>buf := (buf s)(b := (buf s b)\<lparr>flags := f\<rparr>)\<rparr>)"
    by (rule unique_ids_cong) simp_all
next
  assume "locked_on_list s"
  then show "locked_on_list (s\<lparr>buf := (buf s)(b := (buf s b)\<lparr>flags := f\<rparr>)\<rparr>)"
    by (rule locked_on_list_cong) simp_all
qed

lemma ids_load:
  "head (snd (bread_load iderw b s)) = head s \<and>
   (unique_ids Z s \<longrightarrow> unique_ids Z (snd (bread_load iderw b s))) \<and>
   (locked_on_list s \<longrightarrow> locked_on_list (snd (bread_load iderw b s)))"
  using ids_flags [of Z s b "iderw (buf s b)"] by (simp add: bread_load_def)

lemma ids_bread:
  assumes "flush_keeps_ids Z sync"
    and "snd (bread N sync iderw p d n s) = Returns b s' \<or> snd (bread N sync iderw p d n s) = Asleep b s'"
  shows "b \<in> set (head s) \<and> set (head s') = set (head s) \<and>
         (unique_ids Z s \<and> locked_on_list s \<longrightarrow> unique_ids Z s' \<and> locked_on_list s')"
proof (cases "bget_flush N sync s")
  case (Pair cs x)
  show ?thesis
  proof (cases x)
    case (Inl e)
    with Pair assms(2) show ?thesis by (simp add: bread_def bget_def)
  next
    case (Inr s1)
    have fl: "set (head s1) = set (head s) \<and>
         (unique_ids Z s \<and> locked_on_list s \<longrightarrow> unique_ids Z s1 \<and> locked_on_list s1)"
      using Pair Inr by (intro ids_flush [OF assms(1)]) simp
    have br: "bread N sync iderw p d n s =
     (case bget_scan p d n s1 of
        Returns b s2 \<Rightarrow> (cs @ fst (bread_load iderw b s2), Returns b (snd (bread_load iderw b s2)))
      | Asleep b s2 \<Rightarrow> (cs, Asleep b s2)
      | Fatal e \<Rightarrow> (cs, Fatal e))"
      using Pair Inr by (intro bread_unfold) simp
    from assms(2) br obtain s2 where
      s2: "bget_scan p d n s1 = Returns b s2 \<or> bget_scan p d n s1 = Asleep b s2"
      and s': "s' = s2 \<or> s' = snd (bread_load iderw b s2)"
      by (auto split: outcome.splits)
    note sc = ids_scan [OF refl s2, of Z]
    have l: "head s' = head s2 \<and> (unique_ids Z s2 \<longrightarrow> unique_ids Z s') \<and>
             (locked_on_list s2 \<longrightarrow> locked_on_list s')"
      using s' ids_load [of iderw b s2 Z] by blast
    have h: "set (head s') = set (head s)" "b \<in> set (head s)"
      using fl sc l by simp_all
    have "unique_ids Z s' \<and> locked_on_list s'" if "unique_ids Z s \<and> locked_on_list s"
      using that fl sc l by blast
    with h show ?thesis by blast
  qed
qed

lemma ids_wakeup:
  assumes "snd (bread_wakeup iderw p b s) = Returns b' s'"
  shows "head s' = head s \<and> (unique_ids Z s \<longrightarrow> unique_ids Z s') \<and>
         (locked_on_list s \<and> b \<in> set (head s) \<longrightarrow> locked_on_list s')"
proof -
  let ?s1 = "s\<lparr>buf := (buf s)(b := (buf s b)\<lparr>lock := Some p\<rparr>)\<rparr>"
  have s': "s' = snd (bread_load iderw b ?s1)"
    using assms by (auto simp: bread_wakeup_def acquiresleep_def split: if_splits prod.splits)
  have "unique_ids Z ?s1" if "unique_ids Z s"
    using that by (intro unique_ids_cong [of Z s ?s1]) simp_all
  moreover have "locked_on_list ?s1" if "locked_on_list s" "b \<in> set (head s)"
    using that by (intro locked_on_list_upd [of s b ?s1]) simp_all
  ultimately show ?thesis
    unfolding s' using ids_load [of iderw b ?s1 Z] by auto
qed

lemma ids_bwrite:
  assumes "snd (bwrite iderw p b s) = Inr s'"
  shows "head s' = head s \<and> (unique_ids Z s \<longrightarrow> unique_ids Z s') \<and>
         (locked_on_list s \<longrightarrow> locked_on_list s')"
proof -
  have "\<exists>f. s' = s\<lparr>buf := (buf s)(b := (buf s b)\<lparr>flags := f\<rparr>)\<rparr>"
    using assms by (auto simp: bwrite_def Let_def split: if_splits)
  then obtain f where "s' = s\<lparr>buf := (buf s)(b := (buf s b)\<lparr>flags := f\<rparr>)\<rparr>" ..
  then show ?thesis using ids_flags [of Z s b f] by simp
qed

lemma set_move_front: "b \<in> set xs \<Longrightarrow> set (b # remove1 b xs) = set xs"
  by (induction xs) auto

lemma sleepers_cache:
  "sleepers_on_list t \<Longrightarrow> set (head s') = set (head (cache t)) \<Longrightarrow> sleepers_on_list (t\<lparr>cache := s'\<rparr>)"
  by (simp add: sleepers_on_list_def)

lemma sleepers_Cons:
  "sleepers_on_list t \<Longrightarrow> set (head s') = set (head (cache t)) \<Longrightarrow> b \<in> set (head (cache t)) \<Longrightarrow>
   sleepers_on_list (t\<lparr>cache := s', asleep := (p, b) # asleep t\<rparr>)"
  by (simp add: sleepers_on_list_def)

lemma sleepers_remove1:
  "sleepers_on_list t \<Longrightarrow> set (head s') = set (head (cache t)) \<Longrightarrow>
   sleepers_on_list (t\<lparr>cache := s', asleep := remove1 x (asleep t)\<rparr>)"
  unfolding sleepers_on_list_def
proof
  fix y
  assume a: "\<forall>x \<in> set (asleep t). snd x \<in> set (head (cache t))" "set (head s') = set (head (cache t))"
    and y: "y \<in> set (asleep (t\<lparr>cache := s', asleep := remove1 x (asleep t)\<rparr>))"
  from y have "y \<in> set (asleep t)" using set_remove1_subset [of x "asleep t"] by auto
  with a show "snd y \<in> set (head (cache (t\<lparr>cache := s', asleep := remove1 x (asleep t)\<rparr>)))" by simp
qed

lemma ids_brelse:
  assumes "locked_on_list s" "brelse p b s = Inr s'"
  shows "set (head s') = set (head s) \<and> (unique_ids Z s \<longrightarrow> unique_ids Z s') \<and> locked_on_list s'"
proof -
  note eff = brelse_effect [OF assms(2)]
  have mem: "b \<in> set (head s)"
    using assms(1) eff unfolding locked_on_list_def by auto
  have h: "set (head s') = set (head s)"
    using eff mem set_move_front [of b "head s"] by (simp split: if_splits)
  have "unique_ids Z s'" if "unique_ids Z s"
    using that h eff by (intro unique_ids_cong [of Z s s']) simp_all
  moreover have "locked_on_list s'"
    using assms(1) mem h eff by (intro locked_on_list_upd [of s b s']) simp_all
  ultimately show ?thesis using h by blast
qed

lemma ids_exec_op:
  assumes fk: "flush_keeps_ids Z sync"
    and inv: "unique_ids Z (cache t) \<and> locked_on_list (cache t) \<and> sleepers_on_list t"
    and ex: "exec_op N sync iderw x t = Inr t'"
  shows "unique_ids Z (cache t') \<and> locked_on_list (cache t') \<and> sleepers_on_list t'"
proof (cases x)
  case (Fetch p d n)
  show ?thesis
  proof (cases "sleeping t p")
    case True
    with Fetch ex inv show ?thesis by simp
  next
    case False
    show ?thesis
    proof (cases "snd (bread N sync iderw p d n (cache t))")
      case (Fatal e)
      with Fetch False ex show ?thesis by simp
    next
      case (Asleep b s')
      have t': "t' = t\<lparr>cache := s', asleep := (p, b) # asleep t\<rparr>"
        using Fetch False ex Asleep by simp
      from ids_bread [OF fk disjI2 [OF Asleep]] inv
      show ?thesis unfolding t' by (simp add: sleepers_Cons)
    next
      case (Returns b s')
      have t': "t' = t\<lparr>cache := s'\<rparr>"
        using Fetch False ex Returns by simp
      from ids_bread [OF fk disjI1 [OF Returns]] inv
      show ?thesis unfolding t' by (simp add: sleepers_cache)
    qed
  qed
next
  case (Wakeup p b)
  show ?thesis
  proof (cases "(p, b) \<in> set (asleep t)")
    case False
    with Wakeup ex inv show ?thesis by simp
  next
    case True
    then have mem: "b \<in> set (head (cache t))"
      using inv by (auto simp: sleepers_on_list_def)
    show ?thesis
    proof (cases "snd (bread_wakeup iderw p b (cache t))")
      case (Fatal e)
      with Wakeup True ex show ?thesis by simp
    next
      case (Asleep b' s')
      with Wakeup True ex inv show ?thesis by simp
    next
      case (Returns b' s')
      have t': "t' = t\<lparr>cache := s', asleep := remove1 (p, b) (asleep t)\<rparr>"
        using Wakeup True ex Returns by simp
      from ids_wakeup [OF Returns, of Z] inv mem
      show ?thesis unfolding t' by (simp add: sleepers_remove1)
    qed
  qed
next
  case (Write p b)
  show ?thesis
  proof (cases "sleeping t p")
    case True
    with Write ex inv show ?thesis by simp
  next
    case False
    then obtain s' where s': "snd (bwrite iderw p b (cache t)) = Inr s'" "t' = t\<lparr>cache := s'\<rparr>"
      using Write ex by (auto split: sum.splits)
    from ids_bwrite [OF s'(1), of Z] inv show ?thesis
      unfolding s'(2) by (simp add: sleepers_cache)
  qed
next
  case (Release p b)
  show ?thesis
  proof (cases "sleeping t p")
    case True
    with Release ex inv show ?thesis by simp
  next
    case False
    then obtain s' where s': "brelse p b (cache t) = Inr s'" "t' = t\<lparr>cache := s'\<rparr>"
      using Release ex by (auto split: sum.splits)
    from ids_brelse [OF _ s'(1), of Z] inv show ?thesis
      unfolding s'(2) by (simp add: sleepers_cache)
  qed
qed

lemma ids_run:
  "flush_keeps_ids Z sync \<Longrightarrow>
   unique_ids Z (cache t) \<and> locked_on_list (cache t) \<and> sleepers_on_list t \<Longrightarrow>
   run N sync iderw xs t = Inr t' \<Longrightarrow>
   unique_ids Z (cache t') \<and> locked_on_list (cache t') \<and> sleepers_on_list t'"
proof (induction xs arbitrary: t)
  case Nil
  then show ?case by simp
next
  case (Cons x xs)
  from Cons.prems(3) obtain t1 where t1: "exec_op N sync iderw x t = Inr t1" "run N sync iderw xs t1 = Inr t'"
    by (auto split: sum.splits)
  from ids_exec_op [OF Cons.prems(1,2) t1(1)] Cons.IH [OF Cons.prems(1) _ t1(2)]
  show ?case by blast
qed

lemma ids_boot:
  "(0, 0) \<in> Z \<Longrightarrow> unique_ids Z (cache (boot N)) \<and> locked_on_list (cache (boot N)) \<and> sleepers_on_list (boot N)"
  by (simp add: unique_ids_def locked_on_list_def sleepers_on_list_def boot_def binit_eq bcache0_def buf0_def)

lemma flush_commit_keeps_ids: "flush_keeps_ids Z flush_commit"
  unfolding flush_keeps_ids_def
proof (intro allI impI)
  fix t t'
  assume "flush_commit t = Inr t'"
  then have t': "t' = t\<lparr>buf := (\<lambda>b. (buf t b)\<lparr>flags := flags (buf t b) AND NOT B_DIRTY\<rparr>)\<rparr>"
    by (simp add: flush_commit_def)
  have "unique_ids Z t'" if "unique_ids Z t"
    using that unfolding t' by (rule unique_ids_cong) simp_all
  moreover have "locked_on_list t'" if "locked_on_list t"
    using that unfolding t' by (rule locked_on_list_cong) simp_all
  ultimately show "set (head t') = set (head t) \<and>
        (unique_ids Z t \<and> locked_on_list t \<longrightarrow> unique_ids Z t' \<and> locked_on_list t')"
    using t' by simp
qed

subsection \<open>Pristine slots along a run\<close>

lemma find_shrink:
  "find P xs = Some u \<Longrightarrow> Q u \<Longrightarrow> (\<forall>x \<in> set xs. Q x \<longrightarrow> P x) \<Longrightarrow> find Q xs = Some u"
  by (induction xs) (auto split: if_splits)

lemma find_only:
  "v \<in> set xs \<Longrightarrow> P v \<Longrightarrow> (\<forall>x \<in> set xs. P x \<longrightarrow> x = v) \<Longrightarrow> find P xs = Some v"
proof (induction xs)
  case Nil
  then show ?case by simp
next
  case (Cons a xs)
  show ?case
  proof (cases "P a")
    case True
    have "a \<in> set (a # xs)" by simp
    with Cons.prems(3) True have "a = v" by blast
    with True show ?thesis by simp
  next
    case False
    with Cons.prems(1,2) have m: "v \<in> set xs" by auto
    have "\<forall>x \<in> set xs. P x \<longrightarrow> x = v"
      using Cons.prems(3) by (meson list.set_intros(2))
    from Cons.IH [OF m Cons.prems(2) this] False show ?thesis by simp
  qed
qed

lemma find_remove1_other:
  "\<not> P b \<Longrightarrow> find P (remove1 b xs) = find P xs"
  by (induction xs) auto

lemma find_cong_set:
  "(\<forall>x \<in> set xs. P x = Q x) \<Longrightarrow> find P xs = find Q xs"
  by (rule find_cong) simp_all

lemma locked_in_use: "lock (buf s b) \<noteq> None \<Longrightarrow> \<not> pristine s b"
  by (auto simp: pristine_def buf0_def)

lemma referenced_in_use: "refcnt (buf s b) \<noteq> 0 \<Longrightarrow> \<not> pristine s b"
  by (auto simp: pristine_def buf0_def)

lemma named_in_use: "\<not> cached s 0 0 b \<Longrightarrow> \<not> pristine s b"
  by (auto simp: pristine_def buf0_def cached_def)

text \<open>
  A change that keeps the list and the identities, and that takes no pristine slot into
  use unless it is the first with identity (0, 0).
\<close>

lemma zero_first_step:
  assumes z: "zero_first s"
    and h: "head s' = head s"
    and i: "\<forall>x \<in> set (head s). cached s' 0 0 x = cached s 0 0 x"
    and u: "\<forall>x \<in> set (head s). cached s 0 0 x \<and> \<not> pristine s' x \<longrightarrow>
              \<not> pristine s x \<or> find (cached s 0 0) (head s) = Some x"
  shows "zero_first s'"
  unfolding zero_first_def
proof (intro ballI impI)
  fix x
  assume m: "x \<in> set (head s')" and c: "cached s' 0 0 x \<and> \<not> pristine s' x"
  have f: "find (cached s' 0 0) (head s') = find (cached s 0 0) (head s)"
    unfolding h using i by (intro find_cong_set) simp
  from m c h i have "cached s 0 0 x \<and> \<not> pristine s' x" by simp
  with u m h have "\<not> pristine s x \<or> find (cached s 0 0) (head s) = Some x" by simp
  moreover have "find (cached s 0 0) (head s) = Some x" if "\<not> pristine s x"
    using z m h i c that unfolding zero_first_def by simp
  ultimately show "find (cached s' 0 0) (head s') = Some x"
    unfolding f by blast
qed

lemma cached_isfull [simp]: "cached (s\<lparr>isfull := v\<rparr>) d n = cached s d n"
  by (rule ext) (simp add: cached_def)

lemma zero_first_isfull [simp]: "zero_first (s\<lparr>isfull := v\<rparr>) = zero_first s"
  by (simp add: zero_first_def pristine_def cached_def)

lemma zero_flush:
  assumes "flush_keeps_zero sync" "bget_flush N sync s = (cs, Inr s1)"
    and "unique_ids {(0, 0)} s \<and> locked_on_list s \<and> zero_first s"
  shows "zero_first s1"
proof -
  from bget_flush_cases [OF assms(2)] consider
    (same) "s1 = s"
    | (flushed) s3 where "sync (s\<lparr>isfull := 1\<rparr>) = Inr s3" "s1 = s3\<lparr>isfull := 0\<rparr>"
    by blast
  then show ?thesis
  proof cases
    case same
    with assms(3) show ?thesis by simp
  next
    case flushed
    from assms(1) flushed(1) have
      "unique_ids {(0, 0)} (s\<lparr>isfull := 1\<rparr>) \<and> locked_on_list (s\<lparr>isfull := 1\<rparr>) \<and> zero_first (s\<lparr>isfull := 1\<rparr>)
          \<longrightarrow> zero_first s3"
      unfolding flush_keeps_zero_def by blast
    with flushed(2) assms(3) show ?thesis by simp
  qed
qed

lemma bget_scan_effect_first:
  assumes "bget_scan p d n s = r" "r = Returns b s' \<or> r = Asleep b s'"
  shows "(find (cached s d n) (head s) = Some b \<and>
             r = acquiresleep p b (s\<lparr>buf := (buf s)(b := (buf s b)\<lparr>refcnt := refcnt (buf s b) + 1\<rparr>)\<rparr>)) \<or>
          ((\<forall>x \<in> set (head s). \<not> cached s d n x) \<and> b \<in> set (head s) \<and>
             r = acquiresleep p b (s\<lparr>buf := (buf s)(b := (buf s b)\<lparr>dev := d, blockno := n, flags := 0, refcnt := 1\<rparr>)\<rparr>))"
proof -
  have u: "\<not> pool_lock s"
    using assms by (auto simp: bget_scan_locked)
  show ?thesis
  proof (cases "find (cached s d n) (head s)")
    case (Some c)
    have r: "r = acquiresleep p c (s\<lparr>buf := (buf s)(c := (buf s c)\<lparr>refcnt := refcnt (buf s c) + 1\<rparr>)\<rparr>)"
      using assms(1) bget_scan_hit [OF u Some] by simp
    then have "c = b" using assms(2) by (auto simp: acquiresleep_def split: if_splits)
    with r Some show ?thesis by simp
  next
    case None
    then have nc: "\<forall>x \<in> set (head s). \<not> cached s d n x" by (simp add: find_None_set)
    show ?thesis
    proof (cases "find (recyclable s) (rev (head s))")
      case miss: None
      with None u assms show ?thesis by (auto simp: bget_scan_none)
    next
      case (Some v)
      have r: "r = acquiresleep p v (s\<lparr>buf := (buf s)(v := (buf s v)\<lparr>dev := d, blockno := n, flags := 0, refcnt := 1\<rparr>)\<rparr>)"
        using assms(1) bget_scan_miss [OF u None Some] by simp
      then have "v = b" using assms(2) by (auto simp: acquiresleep_def split: if_splits)
      with r nc find_Some_set [OF Some] show ?thesis by simp
    qed
  qed
qed

lemma zero_scan:
  assumes "bget_scan p d n s = r" "r = Returns b s' \<or> r = Asleep b s'" and z: "zero_first s"
  shows "zero_first s'"
proof -
  from bget_scan_effect_first [OF assms(1,2)] consider
    (hit) "find (cached s d n) (head s) = Some b"
      "r = acquiresleep p b (s\<lparr>buf := (buf s)(b := (buf s b)\<lparr>refcnt := refcnt (buf s b) + 1\<rparr>)\<rparr>)"
    | (miss) "\<forall>x \<in> set (head s). \<not> cached s d n x" "b \<in> set (head s)"
      "r = acquiresleep p b (s\<lparr>buf := (buf s)(b := (buf s b)\<lparr>dev := d, blockno := n, flags := 0, refcnt := 1\<rparr>)\<rparr>)"
    by blast
  then show ?thesis
  proof cases
    case hit
    from hit(2) assms(2) have h: "head s' = head s"
      and f: "\<forall>x. dev (buf s' x) = dev (buf s x) \<and> blockno (buf s' x) = blockno (buf s x)"
      and o: "\<forall>x. x \<noteq> b \<longrightarrow> buf s' x = buf s x"
      by (auto simp: acquiresleep_def split: if_splits)
    from hit(1) have cb: "cached s d n b"
      using find_Some_set [of "cached s d n" "head s" b] by simp
    show ?thesis
    proof (rule zero_first_step [OF z h])
      show "\<forall>x \<in> set (head s). cached s' 0 0 x = cached s 0 0 x"
        using f by (simp add: cached_def)
      show "\<forall>x \<in> set (head s). cached s 0 0 x \<and> \<not> pristine s' x \<longrightarrow>
              \<not> pristine s x \<or> find (cached s 0 0) (head s) = Some x"
      proof (intro ballI impI)
        fix x
        assume "x \<in> set (head s)" and c: "cached s 0 0 x \<and> \<not> pristine s' x"
        show "\<not> pristine s x \<or> find (cached s 0 0) (head s) = Some x"
        proof (cases "x = b")
          case True
          with c cb have "d = 0 \<and> n = 0" by (simp add: cached_def)
          with hit(1) True show ?thesis by simp
        next
          case False
          with o have "buf s' x = buf s x" by simp
          with c show ?thesis by (simp add: pristine_def)
        qed
      qed
    qed
  next
    case miss
    from miss(3) assms(2) have h: "head s' = head s"
      and o: "\<forall>x. x \<noteq> b \<longrightarrow> buf s' x = buf s x"
      and i: "dev (buf s' b) = d \<and> blockno (buf s' b) = n"
      by (auto simp: acquiresleep_def split: if_splits)
    note mem = miss(2)
    have keep: "cached s 0 0 y" if "cached s' 0 0 y" "y \<noteq> b" for y
    proof -
      from o that(2) have "buf s' y = buf s y" by simp
      with that(1) show ?thesis by (simp add: cached_def)
    qed
    show ?thesis
      unfolding zero_first_def
    proof (intro ballI impI)
      fix x
      assume m: "x \<in> set (head s')" and c: "cached s' 0 0 x \<and> \<not> pristine s' x"
      show "find (cached s' 0 0) (head s') = Some x"
      proof (cases "d = 0 \<and> n = 0")
        case True
        have only: "\<forall>y \<in> set (head s). cached s' 0 0 y \<longrightarrow> y = b"
        proof (intro ballI impI)
          fix y
          assume y: "y \<in> set (head s)" "cached s' 0 0 y"
          show "y = b"
          proof (rule ccontr)
            assume "y \<noteq> b"
            with keep y(2) have "cached s 0 0 y" by simp
            with miss(1) y(1) True show False by simp
          qed
        qed
        from m h have "x \<in> set (head s)" by simp
        with only c have xb: "x = b" by blast
        have "cached s' 0 0 b"
          using i True by (simp add: cached_def)
        from find_only [OF mem this only] xb h show ?thesis by simp
      next
        case False
        with i c have xb: "x \<noteq> b" by (auto simp: cached_def)
        with o have e: "buf s' x = buf s x" by simp
        with c have "cached s 0 0 x \<and> \<not> pristine s x" by (simp add: cached_def pristine_def)
        with z m h have fs: "find (cached s 0 0) (head s) = Some x"
          unfolding zero_first_def by simp
        have "\<forall>y \<in> set (head s). cached s' 0 0 y \<longrightarrow> cached s 0 0 y"
        proof (intro ballI impI)
          fix y
          assume "y \<in> set (head s)" and cy: "cached s' 0 0 y"
          with i False have "y \<noteq> b" by (auto simp: cached_def)
          with keep cy show "cached s 0 0 y" by simp
        qed
        with fs c have "find (cached s' 0 0) (head s) = Some x"
          by (intro find_shrink [of "cached s 0 0" "head s" x "cached s' 0 0"]) simp_all
        then show ?thesis using h by simp
      qed
    qed
  qed
qed

lemma zero_flags:
  assumes "zero_first s" "\<not> pristine s b"
  shows "zero_first (s\<lparr>buf := (buf s)(b := (buf s b)\<lparr>flags := f\<rparr>)\<rparr>)"
proof (rule zero_first_step [OF assms(1)])
  let ?s' = "s\<lparr>buf := (buf s)(b := (buf s b)\<lparr>flags := f\<rparr>)\<rparr>"
  show "head ?s' = head s" by simp
  show "\<forall>x \<in> set (head s). cached ?s' 0 0 x = cached s 0 0 x"
    by (simp add: cached_def)
  show "\<forall>x \<in> set (head s). cached s 0 0 x \<and> \<not> pristine ?s' x \<longrightarrow>
          \<not> pristine s x \<or> find (cached s 0 0) (head s) = Some x"
    using assms(2) by (auto simp: pristine_def)
qed

lemma zero_lock:
  assumes "zero_first s" "\<not> pristine s b"
  shows "zero_first (s\<lparr>buf := (buf s)(b := (buf s b)\<lparr>lock := l\<rparr>)\<rparr>)"
proof (rule zero_first_step [OF assms(1)])
  let ?s' = "s\<lparr>buf := (buf s)(b := (buf s b)\<lparr>lock := l\<rparr>)\<rparr>"
  show "head ?s' = head s" by simp
  show "\<forall>x \<in> set (head s). cached ?s' 0 0 x = cached s 0 0 x"
    by (simp add: cached_def)
  show "\<forall>x \<in> set (head s). cached s 0 0 x \<and> \<not> pristine ?s' x \<longrightarrow>
          \<not> pristine s x \<or> find (cached s 0 0) (head s) = Some x"
    using assms(2) by (auto simp: pristine_def)
qed

lemma zero_load:
  assumes "zero_first s" "\<not> pristine s b"
  shows "zero_first (snd (bread_load iderw b s))"
  using zero_flags [OF assms, of "iderw (buf s b)"] assms(1) by (simp add: bread_load_def)

lemma bget_scan_Returns_locked:
  assumes "bget_scan p d n s = Returns b s'"
  shows "lock (buf s' b) \<noteq> None"
proof -
  from bget_scan_effect [OF assms disjI1 [OF refl]] obtain s0 where
    "Returns b s' = acquiresleep p b s0"
    by blast
  then have "acquiresleep p b s0 = Returns b s'" by simp
  then show ?thesis by (simp add: acquiresleep_Returns)
qed

lemma zero_bread:
  assumes fk: "flush_keeps_ids {(0, 0)} sync" and fz: "flush_keeps_zero sync"
    and r: "snd (bread N sync iderw p d n s) = Returns b s' \<or> snd (bread N sync iderw p d n s) = Asleep b s'"
    and inv: "unique_ids {(0, 0)} s \<and> locked_on_list s \<and> zero_first s"
  shows "zero_first s'"
proof (cases "bget_flush N sync s")
  case (Pair cs x)
  show ?thesis
  proof (cases x)
    case (Inl e)
    with Pair r show ?thesis by (simp add: bread_def bget_def)
  next
    case (Inr s1)
    have fl: "bget_flush N sync s = (cs, Inr s1)"
      using Pair Inr by simp
    have z1: "zero_first s1"
      using zero_flush [OF fz fl inv] .
    note br = bread_unfold [OF fl, of iderw p d n]
    from r br consider
      (ret) s2 where "bget_scan p d n s1 = Returns b s2" "s' = snd (bread_load iderw b s2)"
      | (slp) "bget_scan p d n s1 = Asleep b s'"
      by (auto split: outcome.splits)
    then show ?thesis
    proof cases
      case ret
      have z2: "zero_first s2"
        using zero_scan [OF ret(1) disjI1 [OF refl] z1] .
      have "\<not> pristine s2 b"
        using bget_scan_Returns_locked [OF ret(1)] by (rule locked_in_use)
      with z2 show ?thesis unfolding ret(2) by (rule zero_load)
    next
      case slp
      show ?thesis
        using zero_scan [OF slp disjI2 [OF refl] z1] .
    qed
  qed
qed

lemma zero_wakeup:
  assumes "snd (bread_wakeup iderw p b s) = Returns b' s'" "zero_first s" "\<not> pristine s b"
  shows "zero_first s'"
proof -
  let ?s1 = "s\<lparr>buf := (buf s)(b := (buf s b)\<lparr>lock := Some p\<rparr>)\<rparr>"
  have s': "s' = snd (bread_load iderw b ?s1)"
    using assms(1) by (auto simp: bread_wakeup_def acquiresleep_def split: if_splits prod.splits)
  have z: "zero_first ?s1"
    using assms(2,3) by (rule zero_lock)
  have "lock (buf ?s1 b) \<noteq> None" by simp
  then have "\<not> pristine ?s1 b" by (rule locked_in_use)
  with z show ?thesis unfolding s' by (rule zero_load)
qed

lemma zero_bwrite:
  assumes "snd (bwrite iderw p b s) = Inr s'" "zero_first s"
  shows "zero_first s'"
proof -
  have "lock (buf s b) = Some p \<and> (\<exists>f. s' = s\<lparr>buf := (buf s)(b := (buf s b)\<lparr>flags := f\<rparr>)\<rparr>)"
    using assms(1) by (auto simp: bwrite_def holdingsleep_def Let_def split: if_splits)
  then obtain f where l: "lock (buf s b) = Some p" and s': "s' = s\<lparr>buf := (buf s)(b := (buf s b)\<lparr>flags := f\<rparr>)\<rparr>"
    by blast
  from l have "\<not> pristine s b" by (intro locked_in_use) simp
  with assms(2) show ?thesis unfolding s' by (rule zero_flags)
qed

lemma zero_brelse:
  assumes "brelse p b s = Inr s'" "locked_on_list s" "zero_first s"
  shows "zero_first s'"
proof -
  note eff = brelse_effect [OF assms(1)]
  from eff have l: "lock (buf s b) = Some p" by simp
  then have mem: "b \<in> set (head s)"
    using assms(2) unfolding locked_on_list_def by auto
  from l have used: "\<not> pristine s b" by (intro locked_in_use) simp
  from eff have bs: "buf s' = (buf s)(b := (buf s b)\<lparr>lock := None, refcnt := refcnt (buf s b) - 1\<rparr>)"
    by simp
  have c: "cached s' 0 0 = cached s 0 0"
    by (rule ext) (simp add: cached_def bs)
  have o: "buf s' x = buf s x" if "x \<noteq> b" for x
    using that by (simp add: bs)
  show ?thesis
  proof (cases "refcnt (buf s b) = 1")
    case False
    with eff have h: "head s' = head s" by simp
    show ?thesis
    proof (rule zero_first_step [OF assms(3) h])
      show "\<forall>x \<in> set (head s). cached s' 0 0 x = cached s 0 0 x"
        by (simp add: c)
      show "\<forall>x \<in> set (head s). cached s 0 0 x \<and> \<not> pristine s' x \<longrightarrow>
              \<not> pristine s x \<or> find (cached s 0 0) (head s) = Some x"
      proof (intro ballI impI)
        fix x
        assume "x \<in> set (head s)" and a: "cached s 0 0 x \<and> \<not> pristine s' x"
        show "\<not> pristine s x \<or> find (cached s 0 0) (head s) = Some x"
        proof (cases "x = b")
          case True
          with used show ?thesis by simp
        next
          case False
          with o [of x] a show ?thesis by (simp add: pristine_def)
        qed
      qed
    qed
  next
    case True
    with eff have h: "head s' = b # remove1 b (head s)" by simp
    have hs: "set (head s') = set (head s)"
      unfolding h using mem by (rule set_move_front)
    show ?thesis
      unfolding zero_first_def
    proof (intro ballI impI)
      fix x
      assume m: "x \<in> set (head s')" and a: "cached s' 0 0 x \<and> \<not> pristine s' x"
      from m hs have mx: "x \<in> set (head s)" by simp
      have old: "find (cached s 0 0) (head s) = Some x" if "x \<noteq> b"
      proof -
        from o [OF that] a have "cached s 0 0 x \<and> \<not> pristine s x"
          by (simp add: c pristine_def)
        with assms(3) mx show ?thesis unfolding zero_first_def by simp
      qed
      show "find (cached s' 0 0) (head s') = Some x"
      proof (cases "cached s 0 0 b")
        case True
        with assms(3) mem used have fb: "find (cached s 0 0) (head s) = Some b"
          unfolding zero_first_def by simp
        have "x = b"
        proof (rule ccontr)
          assume "x \<noteq> b"
          with old fb show False by simp
        qed
        with True show ?thesis by (simp add: h c)
      next
        case False
        with a have xb: "x \<noteq> b" by (auto simp: c)
        from False have "find (cached s 0 0) (b # remove1 b (head s)) = find (cached s 0 0) (head s)"
          by (simp add: find_remove1_other)
        with old [OF xb] show ?thesis by (simp add: h c)
      qed
    qed
  qed
qed

lemma sleeper_in_use:
  assumes "refs_cover t" "(p, b) \<in> set (asleep t)"
  shows "\<not> pristine (cache t) b"
proof -
  from waiters_remove1 [OF assms(2)] have "0 < waiters t b" by simp
  moreover from assms(1) have
    "int (waiters t b) + (if lock (buf (cache t) b) = None then 0 else 1) \<le> refcnt (buf (cache t) b)"
    unfolding refs_cover_def by (rule covered_at)
  ultimately have "refcnt (buf (cache t) b) \<noteq> 0"
    by (auto split: if_splits)
  then show ?thesis by (rule referenced_in_use)
qed

lemma zero_exec_op:
  assumes fk: "flush_keeps_ids {(0, 0)} sync" and fz: "flush_keeps_zero sync"
    and inv: "unique_ids {(0, 0)} (cache t) \<and> locked_on_list (cache t) \<and> zero_first (cache t)"
    and rc: "refs_cover t"
    and ex: "exec_op N sync iderw x t = Inr t'"
  shows "zero_first (cache t')"
proof (cases x)
  case (Fetch p d n)
  show ?thesis
  proof (cases "sleeping t p")
    case True
    with Fetch ex inv show ?thesis by simp
  next
    case False
    show ?thesis
    proof (cases "snd (bread N sync iderw p d n (cache t))")
      case (Fatal e)
      with Fetch False ex show ?thesis by simp
    next
      case (Asleep b s')
      have t': "cache t' = s'"
        using Fetch False ex Asleep by auto
      from zero_bread [OF fk fz disjI2 [OF Asleep] inv]
      show ?thesis unfolding t' .
    next
      case (Returns b s')
      have t': "cache t' = s'"
        using Fetch False ex Returns by auto
      from zero_bread [OF fk fz disjI1 [OF Returns] inv]
      show ?thesis unfolding t' .
    qed
  qed
next
  case (Wakeup p b)
  show ?thesis
  proof (cases "(p, b) \<in> set (asleep t)")
    case False
    with Wakeup ex inv show ?thesis by simp
  next
    case True
    note used = sleeper_in_use [OF rc True]
    show ?thesis
    proof (cases "snd (bread_wakeup iderw p b (cache t))")
      case (Fatal e)
      with Wakeup True ex show ?thesis by simp
    next
      case (Asleep b' s')
      with Wakeup True ex inv show ?thesis by simp
    next
      case (Returns b' s')
      have t': "cache t' = s'"
        using Wakeup True ex Returns by auto
      from zero_wakeup [OF Returns _ used] inv
      show ?thesis unfolding t' by simp
    qed
  qed
next
  case (Write p b)
  show ?thesis
  proof (cases "sleeping t p")
    case True
    with Write ex inv show ?thesis by simp
  next
    case False
    then obtain s' where s': "snd (bwrite iderw p b (cache t)) = Inr s'" "t' = t\<lparr>cache := s'\<rparr>"
      using Write ex by (auto split: sum.splits)
    from zero_bwrite [OF s'(1)] inv show ?thesis
      unfolding s'(2) by simp
  qed
next
  case (Release p b)
  show ?thesis
  proof (cases "sleeping t p")
    case True
    with Release ex inv show ?thesis by simp
  next
    case False
    then obtain s' where s': "brelse p b (cache t) = Inr s'" "t' = t\<lparr>cache := s'\<rparr>"
      using Release ex by (auto split: sum.splits)
    from zero_brelse [OF s'(1)] inv show ?thesis
      unfolding s'(2) by simp
  qed
qed

lemma zero_run:
  "flush_keeps_ids {(0, 0)} sync \<Longrightarrow> flush_balanced sync \<Longrightarrow> flush_keeps_zero sync \<Longrightarrow>
   unique_ids {(0, 0)} (cache t) \<and> locked_on_list (cache t) \<and> sleepers_on_list t \<Longrightarrow>
   refs_cover t \<Longrightarrow> zero_first (cache t) \<Longrightarrow>
   run N sync iderw xs t = Inr t' \<Longrightarrow>
   unique_ids {(0, 0)} (cache t') \<and> zero_first (cache t')"
proof (induction xs arbitrary: t)
  case Nil
  then show ?case by simp
next
  case (Cons x xs)
  from Cons.prems(7) obtain t1 where t1: "exec_op N sync iderw x t = Inr t1" "run N sync iderw xs t1 = Inr t'"
    by (auto split: sum.splits)
  note i1 = ids_exec_op [OF Cons.prems(1,4) t1(1)]
  note r1 = refs_cover_exec_op [OF Cons.prems(2,5) t1(1)]
  have "unique_ids {(0, 0)} (cache t) \<and> locked_on_list (cache t) \<and> zero_first (cache t)"
    using Cons.prems(4,6) by simp
  note z1 = zero_exec_op [OF Cons.prems(1,3) this Cons.prems(5) t1(1)]
  from Cons.IH [OF Cons.prems(1,2,3) i1 r1 z1 t1(2)]
  show ?case .
qed

lemma zero_boot: "zero_first (cache (boot N))"
  by (simp add: zero_first_def pristine_def boot_def binit_eq bcache0_def)

lemma unique_in_use_from:
  assumes "unique_ids {(0, 0)} s" "zero_first s"
  shows "unique_in_use s"
  unfolding unique_in_use_def
proof (intro ballI impI)
  fix b1 b2
  assume m: "b1 \<in> set (head s)" "b2 \<in> set (head s)"
    and e: "dev (buf s b1) = dev (buf s b2) \<and> blockno (buf s b1) = blockno (buf s b2) \<and>
            \<not> pristine s b1 \<and> \<not> pristine s b2"
  show "b1 = b2"
  proof (cases "(dev (buf s b1), blockno (buf s b1)) \<in> {(0, 0)}")
    case False
    with assms(1) m e show ?thesis unfolding unique_ids_def by blast
  next
    case True
    with e have "cached s 0 0 b1 \<and> cached s 0 0 b2" by (simp add: cached_def)
    with assms(2) m e have "find (cached s 0 0) (head s) = Some b1 \<and> find (cached s 0 0) (head s) = Some b2"
      unfolding zero_first_def by blast
    then have "Some b1 = Some b2" by (elim conjE) (rule trans [OF sym])
    then show ?thesis by (rule option.inject [THEN iffD1])
  qed
qed

lemma flush_commit_keeps_zero: "flush_keeps_zero flush_commit"
  unfolding flush_keeps_zero_def
proof (intro allI impI)
  fix t t'
  assume f: "flush_commit t = Inr t'"
    and i: "unique_ids {(0, 0)} t \<and> locked_on_list t \<and> zero_first t"
  from f have t': "t' = t\<lparr>buf := (\<lambda>b. (buf t b)\<lparr>flags := flags (buf t b) AND NOT B_DIRTY\<rparr>)\<rparr>"
    by (simp add: flush_commit_def)
  from i have z: "zero_first t" by simp
  show "zero_first t'"
  proof (rule zero_first_step [OF z])
    show "head t' = head t" by (simp add: t')
    show "\<forall>x \<in> set (head t). cached t' 0 0 x = cached t 0 0 x"
      by (simp add: t' cached_def)
    show "\<forall>x \<in> set (head t). cached t 0 0 x \<and> \<not> pristine t' x \<longrightarrow>
            \<not> pristine t x \<or> find (cached t 0 0) (head t) = Some x"
      by (auto simp: t' pristine_def buf0_def)
  qed
qed

lemma run_zero_example:
  "run 4 flush_commit ide_keep
      [Fetch 1 0 0, Fetch 2 0 0, Write 1 3, Release 1 3, Wakeup 2 3, Release 2 3, Fetch 3 1 11, Fetch 1 0 0] (boot 4) =
   Inr \<lparr>cache = \<lparr>pool_lock = False,
           buf = (\<lambda>_. buf0)
             (3 := \<lparr>flags = B_VALID, dev = 0, blockno = 0, lock = Some 1, refcnt = 1\<rparr>,
              0 := \<lparr>flags = B_VALID, dev = 1, blockno = 11, lock = Some 3, refcnt = 1\<rparr>),
           isfull = 0, head = [3, 2, 1, 0]\<rparr>, asleep = []\<rparr>"
  by (simp add: boot4 sleeping_def run_defs bread_wakeup_def ide_keep_def flush_commit_def buf0_def
      dirty_count_def is_dirty_def B_VALID_def B_DIRTY_def fun_eq_iff)

subsection \<open>The list along a run\<close>

lemma shape_scan:
  assumes "bget_scan p d n s = r" "r = Returns b s' \<or> r = Asleep b s'"
  shows "head s' = head s \<and> \<not> pool_lock s' \<and> \<not> pool_lock s"
  using bget_scan_effect [OF assms] assms(2)
  by (auto simp: acquiresleep_def split: if_splits)

lemma shape_load:
  "head (snd (bread_load iderw b s)) = head s \<and> pool_lock (snd (bread_load iderw b s)) = pool_lock s"
  by (simp add: bread_load_def)

lemma shape_bread:
  assumes "\<forall>t t'. sync t = Inr t' \<longrightarrow> distinct (head t) \<longrightarrow> distinct (head t')"
    and "snd (bread N sync iderw p d n s) = Returns b s' \<or> snd (bread N sync iderw p d n s) = Asleep b s'"
  shows "\<not> pool_lock s' \<and> (distinct (head s) \<longrightarrow> distinct (head s'))"
proof (cases "bget_flush N sync s")
  case (Pair cs x)
  show ?thesis
  proof (cases x)
    case (Inl e)
    with Pair assms(2) show ?thesis by (simp add: bread_def bget_def)
  next
    case (Inr s1)
    have fl: "bget_flush N sync s = (cs, Inr s1)" using Pair Inr by simp
    have d1: "distinct (head s) \<longrightarrow> distinct (head s1)"
      using bget_flush_cases [OF fl] assms(1) by fastforce
    from assms(2) bread_unfold [OF fl, of iderw p d n] obtain s2 where
      s2: "bget_scan p d n s1 = Returns b s2 \<or> bget_scan p d n s1 = Asleep b s2"
      and s': "s' = s2 \<or> s' = snd (bread_load iderw b s2)"
      by (auto split: outcome.splits)
    from shape_scan [OF refl s2] s' shape_load [of iderw b s2] d1
    show ?thesis by auto
  qed
qed

lemma shape_wakeup:
  assumes "snd (bread_wakeup iderw p b s) = Returns b' s'"
  shows "head s' = head s \<and> pool_lock s' = pool_lock s"
  using assms
  by (auto simp: bread_wakeup_def acquiresleep_def bread_load_def split: if_splits)

lemma shape_bwrite:
  assumes "snd (bwrite iderw p b s) = Inr s'"
  shows "head s' = head s \<and> pool_lock s' = pool_lock s"
  using assms by (auto simp: bwrite_def Let_def split: if_splits)

text \<open>
  Along a run the pool lock is free between calls and the list has no repeats and holds
  the \<open>N\<close> buffers of the array, when the flush keeps the list that way.
\<close>

lemma list_shape_exec_op:
  assumes fk: "flush_keeps_ids UNIV sync"
    and fd: "\<forall>t t'. sync t = Inr t' \<longrightarrow> distinct (head t) \<longrightarrow> distinct (head t')"
    and inv: "\<not> pool_lock (cache t) \<and> distinct (head (cache t)) \<and> set (head (cache t)) = S \<and>
              locked_on_list (cache t) \<and> sleepers_on_list t"
    and ex: "exec_op N sync iderw x t = Inr t'"
  shows "\<not> pool_lock (cache t') \<and> distinct (head (cache t')) \<and> set (head (cache t')) = S \<and>
         locked_on_list (cache t') \<and> sleepers_on_list t'"
proof -
  have u: "unique_ids UNIV (cache t)" by (simp add: unique_ids_def)
  from ids_exec_op [OF fk _ ex] u inv
  have keep: "locked_on_list (cache t') \<and> sleepers_on_list t'" by blast
  have shape: "\<not> pool_lock (cache t') \<and> distinct (head (cache t')) \<and> set (head (cache t')) = S"
  proof (cases x)
    case (Fetch p d n)
    show ?thesis
    proof (cases "sleeping t p")
      case True
      with Fetch ex inv show ?thesis by simp
    next
      case False
      show ?thesis
      proof (cases "snd (bread N sync iderw p d n (cache t))")
        case (Fatal e)
        with Fetch False ex show ?thesis by simp
      next
        case (Asleep b s')
        have t': "cache t' = s'" using Fetch False ex Asleep by auto
        have "\<not> pool_lock s' \<and> distinct (head s')"
          using shape_bread [OF fd disjI2 [OF Asleep]] inv by blast
        moreover have "set (head s') = S"
          using ids_bread [OF fk disjI2 [OF Asleep]] inv by blast
        ultimately show ?thesis unfolding t' by blast
      next
        case (Returns b s')
        have t': "cache t' = s'" using Fetch False ex Returns by auto
        have "\<not> pool_lock s' \<and> distinct (head s')"
          using shape_bread [OF fd disjI1 [OF Returns]] inv by blast
        moreover have "set (head s') = S"
          using ids_bread [OF fk disjI1 [OF Returns]] inv by blast
        ultimately show ?thesis unfolding t' by blast
      qed
    qed
  next
    case (Wakeup p b)
    show ?thesis
    proof (cases "(p, b) \<in> set (asleep t)")
      case False
      with Wakeup ex inv show ?thesis by simp
    next
      case True
      show ?thesis
      proof (cases "snd (bread_wakeup iderw p b (cache t))")
        case (Fatal e)
        with Wakeup True ex show ?thesis by simp
      next
        case (Asleep b' s')
        with Wakeup True ex inv show ?thesis by simp
      next
        case (Returns b' s')
        have t': "cache t' = s'" using Wakeup True ex Returns by auto
        from shape_wakeup [OF Returns] inv show ?thesis unfolding t' by simp
      qed
    qed
  next
    case (Write p b)
    show ?thesis
    proof (cases "sleeping t p")
      case True
      with Write ex inv show ?thesis by simp
    next
      case False
      then obtain s' where s': "snd (bwrite iderw p b (cache t)) = Inr s'" "t' = t\<lparr>cache := s'\<rparr>"
        using Write ex by (auto split: sum.splits)
      from shape_bwrite [OF s'(1)] inv show ?thesis unfolding s'(2) by simp
    qed
  next
    case (Release p b)
    show ?thesis
    proof (cases "sleeping t p")
      case True
      with Release ex inv show ?thesis by simp
    next
      case False
      then obtain s' where s': "brelse p b (cache t) = Inr s'" "t' = t\<lparr>cache := s'\<rparr>"
        using Release ex by (auto split: sum.splits)
      note eff = brelse_effect [OF s'(1)]
      have mem: "b \<in> set (head (cache t))"
        using inv eff unfolding locked_on_list_def by auto
      have d: "distinct (b # remove1 b (head (cache t)))"
        using inv by simp
      have "distinct (head s') \<and> set (head s') = S"
        using eff inv d set_move_front [OF mem] by (simp split: if_splits)
      with eff s'(2) show ?thesis by simp
    qed
  qed
  with keep show ?thesis by blast
qed

lemma list_shape_run:
  assumes "flush_keeps_ids UNIV sync"
    and "\<forall>t t'. sync t = Inr t' \<longrightarrow> distinct (head t) \<longrightarrow> distinct (head t')"
    and "run N sync iderw xs (boot N) = Inr t"
  shows "\<not> pool_lock (cache t) \<and> distinct (head (cache t)) \<and> set (head (cache t)) = {0..<N}"
proof -
  have gen: "\<not> pool_lock (cache t0) \<and> distinct (head (cache t0)) \<and> set (head (cache t0)) = S \<and>
              locked_on_list (cache t0) \<and> sleepers_on_list t0 \<Longrightarrow>
             run N sync iderw ys t0 = Inr t1 \<Longrightarrow>
             \<not> pool_lock (cache t1) \<and> distinct (head (cache t1)) \<and> set (head (cache t1)) = S \<and>
              locked_on_list (cache t1) \<and> sleepers_on_list t1" for ys t0 t1 S
  proof (induction ys arbitrary: t0)
    case Nil
    then show ?case by simp
  next
    case (Cons y ys)
    from Cons.prems(2) obtain tm where tm: "exec_op N sync iderw y t0 = Inr tm" "run N sync iderw ys tm = Inr t1"
      by (auto split: sum.splits)
    from list_shape_exec_op [OF assms(1,2) Cons.prems(1) tm(1)] Cons.IH [OF _ tm(2)]
    show ?case by blast
  qed
  have "\<not> pool_lock (cache (boot N)) \<and> distinct (head (cache (boot N))) \<and>
        set (head (cache (boot N))) = {0..<N} \<and>
        locked_on_list (cache (boot N)) \<and> sleepers_on_list (boot N)"
    by (simp add: boot_def binit_eq bcache0_def buf0_def locked_on_list_def sleepers_on_list_def)
  from gen [OF this assms(3)] show ?thesis by blast
qed

subsection \<open>The run queues\<close>

lemma count_list_insert_by_priority:
  "count_list (insert_by_priority pr p qs) x = count_list qs x + (if x = p then 1 else 0)"
  by (induction qs) auto

section \<open>The claims\<close>

subsection \<open>The hit path of bread\<close>




subsection \<open>The buffer bget recycles\<close>

text \<open>
  C2. When the scan of the cache \<open>s1\<close> (the one the pressure check leaves) does not find
  the block and bread returns or sleeps on buffer \<open>v\<close>, then \<open>v\<close> is on the list with
  reference count 0 and Dirty unset, and every buffer between \<open>v\<close> and the
  least-recently-used end is referenced or dirty. Afterwards \<open>v\<close> has the new identity
  and reference count 1, and every other buffer, so every buffer that was dirty, is as
  it was. When bread returns, the flags were cleared and the driver was called to load
  the buffer.
\<close>

theorem recycle_clean_unreferenced:
  assumes fl: "bget_flush N sync s = (cs, Inr s1)"
    and miss: "find (cached s1 d n) (head s1) = None"
    and out: "snd (bread N sync iderw p d n s) = Returns v s' \<or>
              snd (bread N sync iderw p d n s) = Asleep v s'"
  shows "v \<in> set (head s1) \<and> refcnt (buf s1 v) = 0 \<and> \<not> is_dirty (buf s1 v) \<and>
         (\<exists>ys zs. head s1 = ys @ v # zs \<and>
            (\<forall>b \<in> set zs. refcnt (buf s1 b) \<noteq> 0 \<or> is_dirty (buf s1 b))) \<and>
         dev (buf s' v) = d \<and> blockno (buf s' v) = n \<and> refcnt (buf s' v) = 1 \<and>
         (\<forall>b. b \<noteq> v \<longrightarrow> buf s' b = buf s1 b) \<and> head s' = head s1 \<and>
         (\<forall>b. is_dirty (buf s1 b) \<longrightarrow> buf s' b = buf s1 b) \<and>
         (snd (bread N sync iderw p d n s) = Returns v s' \<longrightarrow>
            lock (buf s1 v) = None \<and> lock (buf s' v) = Some p \<and>
            fst (bread N sync iderw p d n s) = cs @ [Iderw v] \<and>
            flags (buf s' v) = iderw \<lparr>flags = 0, dev = d, blockno = n, lock = Some p, refcnt = 1\<rparr>) \<and>
         (snd (bread N sync iderw p d n s) = Asleep v s' \<longrightarrow>
            lock (buf s1 v) \<noteq> None \<and> lock (buf s' v) = lock (buf s1 v) \<and>
            fst (bread N sync iderw p d n s) = cs \<and> flags (buf s' v) = 0)"
proof -
  note br = bread_unfold [OF fl, of iderw p d n]
  have u: "\<not> pool_lock s1"
    using out br by (auto simp: bget_scan_locked)
  obtain w where w: "find (recyclable s1) (rev (head s1)) = Some w"
    using out br u miss by (cases "find (recyclable s1) (rev (head s1))") (auto simp: bget_scan_none)
  let ?t = "s1\<lparr>buf := (buf s1)(w := (buf s1 w)\<lparr>dev := d, blockno := n, flags := 0, refcnt := 1\<rparr>)\<rparr>"
  have scan: "bget_scan p d n s1 = acquiresleep p w ?t"
    using u miss w by (rule bget_scan_miss)
  obtain ys zs where sp: "head s1 = ys @ w # zs" "recyclable s1 w" "\<forall>x \<in> set zs. \<not> recyclable s1 x"
    using find_rev_last [OF w] by blast
  have vw: "v = w"
    using out br scan by (auto simp: acquiresleep_def split: if_splits)
  have rec: "refcnt (buf s1 v) = 0" "\<not> is_dirty (buf s1 v)"
    using sp(2) vw by (simp_all add: recyclable_iff)
  have tail: "\<forall>b \<in> set zs. refcnt (buf s1 b) \<noteq> 0 \<or> is_dirty (buf s1 b)"
    using sp(3) by (auto simp: recyclable_iff)
  show ?thesis
  proof (cases "lock (buf s1 w) = None")
    case True
    then have a: "acquiresleep p w ?t = Returns w (?t\<lparr>buf := (buf ?t)(w := (buf ?t w)\<lparr>lock := Some p\<rparr>)\<rparr>)"
      by (simp add: acquiresleep_def)
    have full: "(buf s1 w)\<lparr>dev := d, blockno := n, flags := 0, refcnt := 1, lock := Some p\<rparr>
        = \<lparr>flags = 0, dev = d, blockno = n, lock = Some p, refcnt = 1\<rparr>"
      by (cases "buf s1 w") simp
    show ?thesis
      using out br scan a vw rec sp(1) tail True full
      by (auto simp: bread_load_def B_VALID_def)
  next
    case False
    then have a: "acquiresleep p w ?t = Asleep w ?t"
      by (simp add: acquiresleep_def)
    show ?thesis
      using out br scan a vw rec sp(1) tail False
      by auto
  qed
qed

text \<open>
  In the pool with 27 dirty buffers the fetch of block 40 passes over buffers 0 to 26,
  dirty with reference count 0, and takes buffer 27.
\<close>

theorem recycle_clean_unreferenced_witness:
  "bget_flush 30 Inr pool_pressed = ([Sync], Inr (pool_pressed\<lparr>isfull := 0\<rparr>)) \<and>
   find (cached (pool_pressed\<lparr>isfull := 0\<rparr>) 1 40) (head (pool_pressed\<lparr>isfull := 0\<rparr>)) = None \<and>
   is_dirty (buf pool_pressed 0) \<and> refcnt (buf pool_pressed 0) = 0 \<and>
   fst (bread 30 Inr ide_done 7 1 40 pool_pressed) = [Sync, Iderw 27] \<and>
   (\<exists>s'. snd (bread 30 Inr ide_done 7 1 40 pool_pressed) = Returns 27 s' \<and>
      dev (buf s' 27) = 1 \<and> blockno (buf s' 27) = 40 \<and> refcnt (buf s' 27) = 1 \<and>
      flags (buf s' 27) = B_VALID \<and> buf s' 0 = buf pool_pressed 0)"
proof -
  have m: "find (cached (pool_pressed\<lparr>isfull := 0\<rparr>) 1 40) (head (pool_pressed\<lparr>isfull := 0\<rparr>)) = None"
    by (simp add: cached_def pool_pressed_simps rev_upt_30 buf0_def)
  have "\<exists>s'. snd (bread 30 Inr ide_done 7 1 40 pool_pressed) = Returns 27 s'"
    by (simp add: bread_unfold [OF flush_noop_pressed] bget_scan_def acquire_def release_def
        acquiresleep_def cached_def recyclable_def pool_pressed_simps rev_upt_30 buf0_def
        B_DIRTY_def B_VALID_def)
  then obtain s' where r: "snd (bread 30 Inr ide_done 7 1 40 pool_pressed) = Returns 27 s'" ..
  have d0: "is_dirty (buf pool_pressed 0) \<and> refcnt (buf pool_pressed 0) = 0"
    by (simp add: pool_pressed_simps is_dirty_def B_DIRTY_def B_VALID_def)
  show ?thesis
    using recycle_clean_unreferenced [OF flush_noop_pressed m disjI1 [OF r]] flush_noop_pressed m r d0
    by (simp add: pool_pressed_simps ide_done_def B_VALID_def B_DIRTY_def)
qed

subsection \<open>Running out of buffers\<close>




subsection \<open>The pressure predicate and the flush guard\<close>

text \<open>
  C4. With the pool lock free, \<^verbatim>\<open>buffer_isfull\<close> returns 1 exactly when the number of
  buffers on the list with Dirty set is at least \<^verbatim>\<open>NBUF - 3\<close> (computed in integers) and 0
  otherwise, and that number is the number of dirty buffers when the list has no repeats.
  When it returns 1 and \<^verbatim>\<open>bcache.isfull\<close> is 0, bget calls \<^verbatim>\<open>sync\<close> once, on the cache
  with \<^verbatim>\<open>isfull\<close> set to 1, and scans the cache the flush left, with \<^verbatim>\<open>isfull\<close> back at 0.
  When it returns 0 bget makes no call. A bget entered while \<^verbatim>\<open>isfull\<close> is not 0, as it
  is for the whole of the flush, never calls \<^verbatim>\<open>sync\<close>, whatever the flush is.
\<close>

theorem pressure_flush_once:
  "\<not> pool_lock s \<Longrightarrow>
   buffer_isfull N s = Inr (if int N - 3 \<le> int (dirty_count s) then 1 else 0, s) \<and>
   (distinct (head s) \<longrightarrow> dirty_count s = card {b \<in> set (head s). is_dirty (buf s b)}) \<and>
   (isfull s = 0 \<and> int N - 3 \<le> int (dirty_count s) \<longrightarrow>
      fst (bget N sync p d n s) = [Sync] \<and>
      snd (bget N sync p d n s) =
        (case sync (s\<lparr>isfull := 1\<rparr>) of
           Inl e \<Rightarrow> Fatal e
         | Inr s3 \<Rightarrow> if pool_lock s3 then Fatal (Panic ''acquire'')
                     else bget_scan p d n (s3\<lparr>isfull := 0\<rparr>))) \<and>
   (isfull s = 0 \<and> int (dirty_count s) < int N - 3 \<longrightarrow>
      bget N sync p d n s = ([], bget_scan p d n s)) \<and>
   (\<forall>t sync' q d' n'. isfull t \<noteq> 0 \<longrightarrow> bget N sync' q d' n' t = ([], bget_scan q d' n' t))"
proof (intro conjI impI allI)
  assume u: "\<not> pool_lock s"
  show "buffer_isfull N s = Inr (if int N - 3 \<le> int (dirty_count s) then 1 else 0, s)"
    using u by (rule buffer_isfull_eq)
  show "dirty_count s = card {b \<in> set (head s). is_dirty (buf s b)}" if "distinct (head s)"
    using that by (rule dirty_count_card)
  show "bget N sync' q d' n' t = ([], bget_scan q d' n' t)" if "isfull t \<noteq> 0" for t sync' q d' n'
    using that by (simp add: bget_def bget_flush_guarded)
  show "bget N sync p d n s = ([], bget_scan p d n s)"
    if "isfull s = 0 \<and> int (dirty_count s) < int N - 3"
    using that u by (simp add: bget_def bget_flush_calm)
  assume pr: "isfull s = 0 \<and> int N - 3 \<le> int (dirty_count s)"
  show "fst (bget N sync p d n s) = [Sync]"
    using pr u by (simp add: bget_def bget_flush_pressed split: sum.splits prod.splits)
  show "snd (bget N sync p d n s) =
        (case sync (s\<lparr>isfull := 1\<rparr>) of
           Inl e \<Rightarrow> Fatal e
         | Inr s3 \<Rightarrow> if pool_lock s3 then Fatal (Panic ''acquire'')
                     else bget_scan p d n (s3\<lparr>isfull := 0\<rparr>))"
    using pr u
    by (auto simp: bget_def bget_flush_pressed set_isfull_eq set_isfull_locked split: sum.splits)
qed

text \<open>
  With 27 of 30 buffers dirty, a fetch of the cached block 5 calls the flush once; the
  flush here fetches block 40 through the cache, and that inner fetch would panic if it
  flushed again. The same fetch made while \<^verbatim>\<open>isfull\<close> is 1 calls nothing, and so does a
  fetch in a pool of four buffers none of which is dirty.
\<close>

theorem pressure_flush_once_witness:
  "\<not> pool_lock pool_pressed \<and> isfull pool_pressed = 0 \<and> distinct (head pool_pressed) \<and>
   dirty_count pool_pressed = 27 \<and>
   card {b \<in> set (head pool_pressed). is_dirty (buf pool_pressed b)} = 27 \<and>
   buffer_isfull 30 pool_pressed = Inr (1, pool_pressed) \<and>
   fst (bget 30 (flush_fetching 30 7 1 40) 7 1 5 pool_pressed) = [Sync] \<and>
   (case snd (bget 30 (flush_fetching 30 7 1 40) 7 1 5 pool_pressed) of
      Returns b s' \<Rightarrow> b = 5 \<and> isfull s' = 0 \<and> refcnt (buf s' 5) = 1 \<and> lock (buf s' 5) = Some 7
    | _ \<Rightarrow> False) \<and>
   isfull pool_flushed = 1 \<and>
   bget 30 (flush_fetching 30 7 1 40) 7 1 5 pool_flushed = ([], bget_scan 7 1 5 pool_flushed) \<and>
   \<not> pool_lock pool_held \<and> isfull pool_held = 0 \<and> dirty_count pool_held = 0 \<and>
   buffer_isfull 4 pool_held = Inr (0, pool_held) \<and>
   bget 4 flush_commit 2 1 99 pool_held = ([], bget_scan 2 1 99 pool_held)"
proof -
  have u: "\<not> pool_lock pool_flushed" by (simp add: pool_flushed_def pool_pressed_simps)
  have d: "distinct (head pool_pressed)" by (simp add: pool_pressed_simps)
  have dh: "dirty_count pool_held = 0"
    by (simp add: dirty_count_def pool_held_simps is_dirty_def B_VALID_def B_DIRTY_def)
  have f: "isfull pool_flushed = 1" by (simp add: pool_flushed_def)
  note a = pressure_flush_once [of pool_pressed 30 "flush_fetching 30 7 1 40" 7 1 5]
  note b = pressure_flush_once [of pool_held 4 flush_commit 2 1 99]
  have 1: "\<not> pool_lock pool_pressed \<and> isfull pool_pressed = 0 \<and> distinct (head pool_pressed) \<and>
   dirty_count pool_pressed = 27 \<and>
   card {b \<in> set (head pool_pressed). is_dirty (buf pool_pressed b)} = 27 \<and>
   buffer_isfull 30 pool_pressed = Inr (1, pool_pressed) \<and>
   fst (bget 30 (flush_fetching 30 7 1 40) 7 1 5 pool_pressed) = [Sync] \<and>
   (case snd (bget 30 (flush_fetching 30 7 1 40) 7 1 5 pool_pressed) of
      Returns b s' \<Rightarrow> b = 5 \<and> isfull s' = 0 \<and> refcnt (buf s' 5) = 1 \<and> lock (buf s' 5) = Some 7
    | _ \<Rightarrow> False)"
    using a d
    by (simp add: pool_pressed_simps(1,2) dirty_count_pressed flush_fetching_pressed bget_scan_flushed u)
  have 2: "bget 30 (flush_fetching 30 7 1 40) 7 1 5 pool_flushed = ([], bget_scan 7 1 5 pool_flushed)"
    using a f by (simp add: pool_pressed_simps(1))
  have 3: "\<not> pool_lock pool_held \<and> isfull pool_held = 0 \<and> dirty_count pool_held = 0 \<and>
   buffer_isfull 4 pool_held = Inr (0, pool_held) \<and>
   bget 4 flush_commit 2 1 99 pool_held = ([], bget_scan 2 1 99 pool_held)"
    using b dh by (simp add: pool_held_simps(1,2))
  from 1 2 3 f show ?thesis by simp
qed

subsection \<open>logDirtyBuffer\<close>

text \<open>
  C5. Called with the pool lock free on a list without repeats, \<^verbatim>\<open>logDirtyBuffer\<close>
  makes one \<^verbatim>\<open>log_write\<close> call for each buffer on the list whose Dirty flag is set and
  for no other buffer, makes no other call, returns the number of those buffers, and
  leaves the cache as it was: no Dirty flag is cleared.
\<close>

theorem collect_dirty_once:
  "\<not> pool_lock s \<Longrightarrow> distinct (head s) \<Longrightarrow>
   (\<exists>cs. logDirtyBuffer s = (cs, Inr (int (card {b \<in> set (head s). is_dirty (buf s b)}), s)) \<and>
      (\<forall>b. count_list cs (Log_write b) = (if b \<in> set (head s) \<and> is_dirty (buf s b) then 1 else 0)) \<and>
      (\<forall>c \<in> set cs. \<exists>b. c = Log_write b))"
proof -
  assume u: "\<not> pool_lock s" and d: "distinct (head s)"
  let ?ds = "filter (\<lambda>b. is_dirty (buf s b)) (head s)"
  have dd: "distinct ?ds" using d by simp
  have cnt: "count_list (map Log_write ?ds) (Log_write b) = (if b \<in> set ?ds then 1 else 0)" for b
    using dd by (simp add: count_list_Log_write count_list_distinct)
  show ?thesis
    using u d cnt by (auto simp: logDirtyBuffer_eq dirty_count_card)
qed

text \<open>The pool with 27 dirty buffers: 27 calls, one for buffer 3, none for buffer 28.\<close>

theorem collect_dirty_once_witness:
  "\<not> pool_lock pool_pressed \<and> distinct (head pool_pressed) \<and>
   (\<exists>cs. logDirtyBuffer pool_pressed = (cs, Inr (27, pool_pressed)) \<and>
      count_list cs (Log_write 3) = 1 \<and> count_list cs (Log_write 28) = 0 \<and> length cs = 27)"
proof -
  have d: "distinct (head pool_pressed)" by (simp add: pool_pressed_simps)
  have c: "card {b \<in> set (head pool_pressed). is_dirty (buf pool_pressed b)} = 27"
    using dirty_count_card [OF d] dirty_count_pressed by simp
  have l: "length (filter (\<lambda>b. is_dirty (buf pool_pressed b)) (head pool_pressed)) = 27"
    using dirty_count_pressed by (simp add: dirty_count_def)
  have m: "3 \<in> set (head pool_pressed) \<and> is_dirty (buf pool_pressed 3)"
     "\<not> is_dirty (buf pool_pressed 28)"
    by (simp_all add: pool_pressed_simps is_dirty_def B_DIRTY_def B_VALID_def buf0_def)
  from collect_dirty_once [of pool_pressed] d obtain cs where
    cs: "logDirtyBuffer pool_pressed = (cs, Inr (int (card {b \<in> set (head pool_pressed). is_dirty (buf pool_pressed b)}), pool_pressed))"
     "\<forall>b. count_list cs (Log_write b) = (if b \<in> set (head pool_pressed) \<and> is_dirty (buf pool_pressed b) then 1 else 0)"
    by (auto simp: pool_pressed_simps)
  have "logDirtyBuffer pool_pressed =
      (map Log_write (filter (\<lambda>b. is_dirty (buf pool_pressed b)) (head pool_pressed)),
       Inr (int (dirty_count pool_pressed), pool_pressed))"
    by (rule logDirtyBuffer_eq) (simp add: pool_pressed_simps(1))
  with cs(1) have "cs = map Log_write (filter (\<lambda>b. is_dirty (buf pool_pressed b)) (head pool_pressed))"
    by (simp only: prod.inject)
  with l have "length cs = 27" by (simp only: length_map)
  then show ?thesis using cs c m d by (simp add: pool_pressed_simps(1))
qed

subsection \<open>The lock checks of bwrite and brelse\<close>

text \<open>
  C6. \<^verbatim>\<open>bwrite(b)\<close> panics with "bwrite", and \<^verbatim>\<open>brelse(b)\<close> with "brelse", exactly when
  the calling process does not hold the content lock of \<^verbatim>\<open>b\<close>. When it holds the lock,
  bwrite sets \<^verbatim>\<open>B_DIRTY\<close>, then calls \<^verbatim>\<open>iderw\<close> on the buffer, and returns with the
  flags the driver left; nothing else in the cache changes.
\<close>

theorem bwrite_brelse_lock_check:
  "(snd (bwrite iderw p b s) = Inl (Panic ''bwrite'') \<longleftrightarrow> \<not> holdingsleep p b s) \<and>
   (brelse p b s = Inl (Panic ''brelse'') \<longleftrightarrow> \<not> holdingsleep p b s) \<and>
   (holdingsleep p b s \<longrightarrow>
      (\<exists>s'. bwrite iderw p b s = ([Iderw b], Inr s') \<and>
         is_dirty ((buf s b)\<lparr>flags := flags (buf s b) OR B_DIRTY\<rparr>) \<and>
         buf s' b = (buf s b)\<lparr>flags := iderw ((buf s b)\<lparr>flags := flags (buf s b) OR B_DIRTY\<rparr>)\<rparr> \<and>
         (\<forall>c. c \<noteq> b \<longrightarrow> buf s' c = buf s c) \<and>
         head s' = head s \<and> isfull s' = isfull s \<and> pool_lock s' = pool_lock s))"
  by (auto simp: bwrite_def brelse_def Let_def acquire_def release_def is_dirty_def B_DIRTY_def
      word_ao_absorbs split: sum.splits if_splits)

text \<open>
  In the pool whose buffers process 1 holds, process 2 is refused and process 1 is not;
  the write of process 1 reaches the driver, which leaves the buffer valid and clean.
\<close>

theorem bwrite_brelse_lock_check_witness:
  "holdingsleep 1 0 pool_held \<and> \<not> holdingsleep 2 0 pool_held \<and>
   snd (bwrite ide_done 2 0 pool_held) = Inl (Panic ''bwrite'') \<and>
   brelse 2 0 pool_held = Inl (Panic ''brelse'') \<and>
   snd (bwrite ide_done 1 0 pool_held) \<noteq> Inl (Panic ''bwrite'') \<and>
   brelse 1 0 pool_held \<noteq> Inl (Panic ''brelse'') \<and>
   (\<exists>s'. bwrite ide_done 1 0 pool_held = ([Iderw 0], Inr s') \<and> flags (buf s' 0) = B_VALID)"
  using bwrite_brelse_lock_check [of ide_done 2 0 pool_held]
    bwrite_brelse_lock_check [of ide_done 1 0 pool_held]
  by (auto simp: holdingsleep_def pool_held_simps ide_done_def B_VALID_def B_DIRTY_def)

subsection \<open>Reference counts never negative\<close>

text \<open>
  C7. Start from the cache \<^verbatim>\<open>binit\<close> leaves and let any processes make any calls of bread,
  bwrite and brelse, a sleeper going on in bread when it is woken, with a flush that
  leaves reference counts and content locks as it found them. If no call panics, then in
  the state reached no reference count is negative: each is at least the number of
  processes asleep on the buffer, plus one when its content lock is held.
\<close>

theorem refcnt_never_negative:
  assumes "flush_balanced sync" and "run N sync iderw xs (boot N) = Inr t"
  shows "(\<forall>b. 0 \<le> refcnt (buf (cache t) b)) \<and> refs_cover t"
  using refs_cover_run [OF assms(1) refs_cover_boot assms(2)] refs_cover_nonneg by blast

text \<open>
  Process 1 fetches block 10, process 2 asks for it and sleeps, process 1 writes and
  releases, process 2 wakes up and releases, process 3 fetches block 11, which flushes.
\<close>

theorem refcnt_never_negative_witness:
  "flush_balanced flush_commit \<and>
   (\<exists>t. run 4 flush_commit ide_keep
      [Fetch 1 1 10, Fetch 2 1 10, Write 1 0, Release 1 0, Wakeup 2 0, Release 2 0, Fetch 3 1 11] (boot 4) = Inr t
     \<and> (\<forall>b. 0 \<le> refcnt (buf (cache t) b)) \<and> refcnt (buf (cache t) 1) = 1 \<and> asleep t = [])"
proof -
  from run_example obtain t where t: "run 4 flush_commit ide_keep
      [Fetch 1 1 10, Fetch 2 1 10, Write 1 0, Release 1 0, Wakeup 2 0, Release 2 0, Fetch 3 1 11] (boot 4) = Inr t"
      "refcnt (buf (cache t) 1) = 1" "asleep t = []"
    by blast
  from refcnt_never_negative [OF flush_commit_balanced t(1)] t flush_commit_balanced
  show ?thesis by blast
qed

subsection \<open>Identity uniqueness\<close>

text \<open>
  C8, as the code has it. Every operation preserves identity uniqueness: if, outside a
  set \<open>Z\<close> of exempt identities, no two buffers of the list have the same identity (and
  locked buffers and the buffers of sleepers are on the list, and the flush keeps this),
  the same holds after any calls of bread, bwrite and brelse that do not panic, because
  the scan for the block comes before the scan for a buffer to recycle. With \<open>Z\<close> empty
  this is identity uniqueness. In the cache \<^verbatim>\<open>binit\<close> leaves every slot has identity
  (0, 0); in every state reached from it, at most one buffer that is not pristine has any
  given identity, (0, 0) included: the other buffers with identity (0, 0) are slots that
  are still as \<^verbatim>\<open>binit\<close> left them, and a fetch of block 0 of device 0 finds the buffer in
  use for it before any of them.
\<close>

theorem identity_unique_preserved:
  assumes "run N sync iderw xs t0 = Inr t"
  shows "(flush_keeps_ids Z sync \<and> unique_ids Z (cache t0) \<and> locked_on_list (cache t0) \<and> sleepers_on_list t0 \<longrightarrow>
            unique_ids Z (cache t)) \<and>
         (t0 = boot N \<and> flush_keeps_ids {(0, 0)} sync \<and> flush_balanced sync \<and> flush_keeps_zero sync \<longrightarrow>
            unique_in_use (cache t) \<and> zero_first (cache t))"
proof (intro conjI impI)
  assume "flush_keeps_ids Z sync \<and> unique_ids Z (cache t0) \<and> locked_on_list (cache t0) \<and> sleepers_on_list t0"
  then show "unique_ids Z (cache t)"
    using ids_run [of Z sync t0 N iderw xs t] assms by blast
next
  assume a: "t0 = boot N \<and> flush_keeps_ids {(0, 0)} sync \<and> flush_balanced sync \<and> flush_keeps_zero sync"
  have i: "unique_ids {(0, 0)} (cache (boot N)) \<and> locked_on_list (cache (boot N)) \<and> sleepers_on_list (boot N)"
    by (rule ids_boot) simp
  from a assms have r: "run N sync iderw xs (boot N) = Inr t" by simp
  from a have "flush_keeps_ids {(0, 0)} sync" "flush_balanced sync" "flush_keeps_zero sync" by simp_all
  from zero_run [OF this i refs_cover_boot zero_boot r]
  have z: "unique_ids {(0, 0)} (cache t) \<and> zero_first (cache t)" .
  then show "unique_in_use (cache t)" by (simp add: unique_in_use_from)
  from z show "zero_first (cache t)" by simp
qed

text \<open>
  A run from \<^verbatim>\<open>binit\<close> with four buffers in which block 0 of device 0 is fetched three
  times: the second fetch sleeps on the buffer of the first, and the third, after
  another block has been fetched, finds buffer 3 again. Buffers 1 and 2 are still
  pristine.
\<close>

theorem identity_unique_preserved_witness:
  "flush_keeps_ids {(0, 0)} flush_commit \<and> flush_balanced flush_commit \<and> flush_keeps_zero flush_commit \<and>
   (\<exists>t. run 4 flush_commit ide_keep
      [Fetch 1 0 0, Fetch 2 0 0, Write 1 3, Release 1 3, Wakeup 2 3, Release 2 3, Fetch 3 1 11, Fetch 1 0 0] (boot 4) = Inr t
     \<and> unique_ids {(0, 0)} (cache t) \<and> unique_in_use (cache t) \<and> zero_first (cache t)
     \<and> head (cache t) = [3, 2, 1, 0]
     \<and> buf (cache t) 3 = \<lparr>flags = B_VALID, dev = 0, blockno = 0, lock = Some 1, refcnt = 1\<rparr>
     \<and> pristine (cache t) 2 \<and> pristine (cache t) 1
     \<and> find (cached (cache t) 0 0) (head (cache t)) = Some 3)"
proof -
  let ?t = "\<lparr>cache = \<lparr>pool_lock = False,
           buf = (\<lambda>_. buf0)
             (3 := \<lparr>flags = B_VALID, dev = 0, blockno = 0, lock = Some 1, refcnt = 1\<rparr>,
              0 := \<lparr>flags = B_VALID, dev = 1, blockno = 11, lock = Some 3, refcnt = 1\<rparr>),
           isfull = 0, head = [3, 2, 1, 0]\<rparr>, asleep = []\<rparr>"
  note r = run_zero_example
  have b: "unique_ids {(0, 0)} (cache (boot 4)) \<and> locked_on_list (cache (boot 4)) \<and> sleepers_on_list (boot 4)"
    by (rule ids_boot) simp
  from identity_unique_preserved [OF r, of "{(0, 0)}"] b
    flush_commit_keeps_ids [of "{(0, 0)}"] flush_commit_balanced flush_commit_keeps_zero
  have u: "unique_ids {(0, 0)} (cache ?t) \<and> unique_in_use (cache ?t) \<and> zero_first (cache ?t)"
    by blast
  have s: "head (cache ?t) = [3, 2, 1, 0] \<and>
     buf (cache ?t) 3 = \<lparr>flags = B_VALID, dev = 0, blockno = 0, lock = Some 1, refcnt = 1\<rparr> \<and>
     pristine (cache ?t) 2 \<and> pristine (cache ?t) 1 \<and>
     find (cached (cache ?t) 0 0) (head (cache ?t)) = Some 3"
    by (simp add: pristine_def cached_def)
  from r u s flush_commit_keeps_ids [of "{(0, 0)}"] flush_commit_balanced flush_commit_keeps_zero
  show ?thesis by blast
qed

text \<open>
  C8 as stated fails in the first reachable state: after \<^verbatim>\<open>binit\<close> buffers 0 and 1 are
  on the list and both have identity (0, 0).
\<close>

theorem identity_unique_counterexample:
  "0 \<in> set (head (cache (boot 30))) \<and> 1 \<in> set (head (cache (boot 30))) \<and>
   dev (buf (cache (boot 30)) 0) = dev (buf (cache (boot 30)) 1) \<and>
   blockno (buf (cache (boot 30)) 0) = blockno (buf (cache (boot 30)) 1) \<and>
   \<not> unique_ids {} (cache (boot 30))"
proof -
  have m: "0 \<in> set (head (cache (boot 30))) \<and> 1 \<in> set (head (cache (boot 30)))"
    by (simp add: boot_def binit_eq bcache0_def)
  have e: "buf (cache (boot 30)) 0 = buf (cache (boot 30)) 1"
    by (simp add: boot_def binit_eq bcache0_def)
  have "\<not> unique_ids {} (cache (boot 30))"
  proof
    assume "unique_ids {} (cache (boot 30))"
    then have "(0::nat) = 1"
      unfolding unique_ids_def using m e by fastforce
    then show False by simp
  qed
  with m e show ?thesis by simp
qed

subsection \<open>Enqueue is idempotent\<close>

text \<open>
  C9. A second enqueue of the same process changes nothing, so a process that was not
  queued is in the queue of its level exactly once after two enqueues. Enqueue never
  clears the \<^verbatim>\<open>already_enqueued\<close> guard of any process; dispatch clears the guard of the
  process it takes from its queue and of no other.
\<close>

theorem enqueue_idempotent:
  "enqueue p (enqueue p s) = enqueue p s \<and>
   (already_enqueued (ptable s p) \<noteq> 0 \<longrightarrow> enqueue p s = s) \<and>
   (already_enqueued (ptable s p) = 0 \<and> p \<notin> set (level_queue s (nat (level (ptable s p)))) \<longrightarrow>
      count_list (level_queue (enqueue p (enqueue p s)) (nat (level (ptable s p)))) p = 1) \<and>
   (already_enqueued (ptable (enqueue q s) p) = 0 \<longrightarrow> already_enqueued (ptable s p) = 0) \<and>
   (\<forall>r s'. dispatch s = Some (r, s') \<longrightarrow>
      already_enqueued (ptable s' r) = 0 \<and>
      (\<forall>p'. p' \<noteq> r \<longrightarrow> already_enqueued (ptable s' p') = already_enqueued (ptable s p')))"
proof (intro conjI impI allI)
  show "enqueue p (enqueue p s) = enqueue p s"
    by (simp add: enqueue_def Let_def)
  show "enqueue p s = s" if "already_enqueued (ptable s p) \<noteq> 0"
    using that by (simp add: enqueue_def)
  show "count_list (level_queue (enqueue p (enqueue p s)) (nat (level (ptable s p)))) p = 1"
    if "already_enqueued (ptable s p) = 0 \<and> p \<notin> set (level_queue s (nat (level (ptable s p))))"
    using that by (auto simp: enqueue_def Let_def count_list_insert_by_priority)
  show "already_enqueued (ptable s p) = 0" if "already_enqueued (ptable (enqueue q s) p) = 0"
    using that by (auto simp: enqueue_def Let_def split: if_splits)
  fix r s'
  assume d: "dispatch s = Some (r, s')"
  then show "already_enqueued (ptable s' r) = 0"
    by (auto simp: dispatch_def split: option.splits list.splits)
  fix p'
  assume "p' \<noteq> r"
  with d show "already_enqueued (ptable s' p') = already_enqueued (ptable s p')"
    by (auto simp: dispatch_def split: option.splits list.splits)
qed

text \<open>
  Process 4, runnable at level 1, is enqueued twice and then dispatched.
\<close>

theorem enqueue_idempotent_witness:
  "already_enqueued (ptable sched_idle 4) = 0 \<and>
   level_queue (enqueue 4 (enqueue 4 sched_idle)) 1 = [4] \<and>
   already_enqueued (ptable (enqueue 4 sched_idle) 4) \<noteq> 0 \<and>
   enqueue 4 (enqueue 4 sched_idle) = enqueue 4 sched_idle \<and>
   count_list (level_queue (enqueue 4 (enqueue 4 sched_idle)) 1) 4 = 1 \<and>
   (\<exists>s'. dispatch (enqueue 4 (enqueue 4 sched_idle)) = Some (4, s') \<and>
      already_enqueued (ptable s' 4) = 0 \<and> level_queue s' 1 = [])"
proof -
  have d: "\<exists>s'. dispatch (enqueue 4 (enqueue 4 sched_idle)) = Some (4, s') \<and> level_queue s' 1 = []"
    by (simp add: dispatch_def enqueue_def sched_idle_def Let_def)
  then obtain s' where s': "dispatch (enqueue 4 (enqueue 4 sched_idle)) = Some (4, s')" "level_queue s' 1 = []"
    by blast
  have q: "level_queue (enqueue 4 (enqueue 4 sched_idle)) 1 = [4]"
     "already_enqueued (ptable (enqueue 4 sched_idle) 4) \<noteq> 0" "already_enqueued (ptable sched_idle 4) = 0"
     "nat (level (ptable sched_idle 4)) = 1" "4 \<notin> set (level_queue sched_idle 1)"
    by (simp_all add: enqueue_def sched_idle_def Let_def)
  from enqueue_idempotent [of 4 sched_idle 4] enqueue_idempotent [of 4 "enqueue 4 (enqueue 4 sched_idle)" 4] s' q
  show ?thesis by (auto simp del: One_nat_def)
qed

subsection \<open>The observers\<close>

text \<open>
  C10. \<^verbatim>\<open>buffer_isfull\<close> and \<^verbatim>\<open>logDirtyBuffer\<close> never return a cache other than the one
  they were called on: identity, flags, reference count and content lock of every buffer,
  the list, the pool lock and \<^verbatim>\<open>isfull\<close> are as before. Called with the pool lock free,
  both return.
\<close>

theorem observers_leave_cache:
  "(\<forall>r s'. buffer_isfull N s = Inr (r, s') \<longrightarrow> s' = s) \<and>
   (\<forall>cs r s'. logDirtyBuffer s = (cs, Inr (r, s')) \<longrightarrow> s' = s) \<and>
   (\<not> pool_lock s \<longrightarrow>
      (\<exists>r. buffer_isfull N s = Inr (r, s)) \<and> (\<exists>cs r. logDirtyBuffer s = (cs, Inr (r, s))))"
proof (cases "pool_lock s")
  case True
  then show ?thesis by (simp add: buffer_isfull_locked logDirtyBuffer_locked)
next
  case False
  then show ?thesis by (simp add: buffer_isfull_eq logDirtyBuffer_eq)
qed

text \<open>Both observers on the pool with 27 dirty buffers.\<close>

theorem observers_leave_cache_witness:
  "\<not> pool_lock pool_pressed \<and>
   (\<exists>r. buffer_isfull 30 pool_pressed = Inr (r, pool_pressed)) \<and>
   (\<exists>cs r. logDirtyBuffer pool_pressed = (cs, Inr (r, pool_pressed)))"
  using observers_leave_cache [of 30 pool_pressed]
  by (simp add: pool_pressed_simps)

end
